theory Spec2Isabelle
  imports Main
begin

section \<open>Strings of the Python runtime\<close>

text \<open>
  A Python \<open>str\<close> is a sequence of code points. The embedding covers the code points
  U+0000 to U+00FF, one \<^typ>\<open>char\<close> each, so that \<^const>\<open>length\<close> counts what
  \<open>len\<close> counts. The character classes below are the ones of \<open>str.isspace\<close>,
  of the \<open>re\<close> classes \<open>\s\<close> and \<open>\w\<close>, and of \<open>str.lower\<close>,
  restricted to that range.
\<close>

definition cp :: "char \<Rightarrow> nat" where
  "cp c = of_char c"

definition isspace :: "char \<Rightarrow> bool" where
  "isspace c = ((9 \<le> cp c \<and> cp c \<le> 13) \<or> (28 \<le> cp c \<and> cp c \<le> 32) \<or> cp c = 133 \<or> cp c = 160)"

definition strip :: "string \<Rightarrow> string" where
  "strip s = rev (dropWhile isspace (rev (dropWhile isspace s)))"

section \<open>Audio chunking: \<open>TextProcessor.segment_text_for_audio\<close>\<close>

text \<open>
  The exceptions of the runtime that the modelled code can meet: \<open>sent_tokenize\<close> raises
  \<open>LookupError\<close> when its model is not installed, \<open>range\<close> raises
  \<open>ValueError\<close> on a zero step. All of them derive from \<open>Exception\<close>.
\<close>

datatype exn = LookupError | ValueError | TypeError

text \<open>
  The loop over the sentences, with its two variables \<open>chunks\<close> and
  \<open>current_chunk\<close> as the state. A string is true in a condition when it is not empty.
\<close>

fun segment_loop :: "int \<Rightarrow> string list \<Rightarrow> string list \<times> string \<Rightarrow> string list \<times> string" where
  "segment_loop max_chunk_size [] (chunks, current_chunk) = (chunks, current_chunk)"
| "segment_loop max_chunk_size (sentence # sentences) (chunks, current_chunk) =
     (if int (length (current_chunk @ sentence)) > max_chunk_size \<and> current_chunk \<noteq> []
      then segment_loop max_chunk_size sentences (chunks @ [strip current_chunk], sentence)
      else segment_loop max_chunk_size sentences
             (chunks, if current_chunk \<noteq> [] then current_chunk @ '' '' @ sentence else sentence))"

text \<open>The body of the function after the call of \<open>sent_tokenize\<close>.\<close>

definition segment_sentences :: "int \<Rightarrow> string list \<Rightarrow> string list" where
  "segment_sentences max_chunk_size sentences =
     (case segment_loop max_chunk_size sentences ([], []) of
        (chunks, current_chunk) \<Rightarrow>
          if strip current_chunk \<noteq> [] then chunks @ [strip current_chunk] else chunks)"

text \<open>
  \<open>sent_tokenize\<close> belongs to the NLTK library; it is a parameter here, returning the
  sentences or the exception it raises.
\<close>

definition segment_text_for_audio ::
  "(string \<Rightarrow> exn + string list) \<Rightarrow> string \<Rightarrow> int \<Rightarrow> exn + string list" where
  "segment_text_for_audio sent_tokenize text max_chunk_size =
     (case sent_tokenize text of
        Inl e \<Rightarrow> Inl e
      | Inr sentences \<Rightarrow> Inr (segment_sentences max_chunk_size sentences))"

text \<open>
  \<open>PDFToAudioConverter.split_text_into_chunks\<close> calls the segmenter inside
  \<open>try\<close> and, on any \<open>Exception\<close>, slices the text at the multiples of
  \<open>chunk_size\<close>. The messages it shows in the user interface are left out.
  \<open>range0 n step\<close> is \<open>range(0, n, step)\<close>; a slice \<open>text[i:i+k]\<close> with
  \<open>0 \<le> i\<close> and \<open>0 < k\<close> stops at the end of the text.
\<close>

definition range0 :: "nat \<Rightarrow> int \<Rightarrow> exn + nat list" where
  "range0 n step =
     (if step = 0 then Inl ValueError
      else if step < 0 then Inr []
      else Inr (map (\<lambda>k. k * nat step) [0 ..< (n + nat step - 1) div nat step]))"

definition split_text_into_chunks ::
  "(string \<Rightarrow> exn + string list) \<Rightarrow> string \<Rightarrow> int \<Rightarrow> exn + string list" where
  "split_text_into_chunks sent_tokenize text chunk_size =
     (case segment_text_for_audio sent_tokenize text chunk_size of
        Inr chunks \<Rightarrow> Inr chunks
      | Inl e \<Rightarrow>
          (case range0 (length text) chunk_size of
             Inl e' \<Rightarrow> Inl e'
           | Inr starts \<Rightarrow> Inr (map (\<lambda>i. take (nat chunk_size) (drop i text)) starts)))"

section \<open>Normalization: \<open>TextProcessor.clean_text\<close>\<close>

definition ispunct :: "char \<Rightarrow> bool" where
  "ispunct c = (c \<in> set ''.,!?;:'')"

definition isupperAZ :: "char \<Rightarrow> bool" where
  "isupperAZ c = (65 \<le> cp c \<and> cp c \<le> 90)"

text \<open>The class \<open>\w\<close> on a \<open>str\<close> pattern: alphanumeric code points and the underscore.\<close>

definition isword :: "char \<Rightarrow> bool" where
  "isword c =
     ((48 \<le> cp c \<and> cp c \<le> 57) \<or> (65 \<le> cp c \<and> cp c \<le> 90) \<or> cp c = 95 \<or>
      (97 \<le> cp c \<and> cp c \<le> 122) \<or> cp c = 170 \<or> (178 \<le> cp c \<and> cp c \<le> 179) \<or>
      cp c = 181 \<or> (185 \<le> cp c \<and> cp c \<le> 186) \<or> (188 \<le> cp c \<and> cp c \<le> 190) \<or>
      (192 \<le> cp c \<and> cp c \<le> 214) \<or> (216 \<le> cp c \<and> cp c \<le> 246) \<or> 248 \<le> cp c)"

text \<open>
  Each \<open>re.sub\<close> scans the text from the left, replaces the leftmost match, and goes on
  behind it; \<open>\s+\<close> and \<open>\s*\<close> are greedy and take the whole run of white space. A
  shorter run never helps the match, since the character that follows the run in the
  pattern is not white space.

  \<open>re.sub(r'\s+', ' ', text)\<close>:
\<close>

function sub_whitespace :: "string \<Rightarrow> string" where
  "sub_whitespace [] = []"
| "sub_whitespace (c # cs) =
     (if isspace c then CHR '' '' # sub_whitespace (dropWhile isspace cs)
      else c # sub_whitespace cs)"
  by pat_completeness auto
termination
  by (relation "measure length") (auto simp: less_Suc_eq_le length_dropWhile_le)

text \<open>\<open>re.sub(r'\s+([.,!?;:])', r'\1', text)\<close>:\<close>

function sub_space_before_punct :: "string \<Rightarrow> string" where
  "sub_space_before_punct [] = []"
| "sub_space_before_punct (c # cs) =
     (if isspace c then
        (case dropWhile isspace cs of
           [] \<Rightarrow> c # sub_space_before_punct cs
         | p # rest \<Rightarrow>
             if ispunct p then p # sub_space_before_punct rest
             else c # sub_space_before_punct cs)
      else c # sub_space_before_punct cs)"
  by pat_completeness auto
termination
proof (relation "measure length", goal_cases)
  case (3 c cs p rest)
  have "length (dropWhile isspace cs) \<le> length cs"
    by (rule length_dropWhile_le)
  with 3 show ?case by simp
qed auto

text \<open>\<open>re.sub(r'([.,!?;:])\s*([A-Z])', r'\1 \2', text)\<close>:\<close>

function sub_space_after_punct :: "string \<Rightarrow> string" where
  "sub_space_after_punct [] = []"
| "sub_space_after_punct (c # cs) =
     (if ispunct c then
        (case dropWhile isspace cs of
           [] \<Rightarrow> c # sub_space_after_punct cs
         | u # rest \<Rightarrow>
             if isupperAZ u then c # CHR '' '' # u # sub_space_after_punct rest
             else c # sub_space_after_punct cs)
      else c # sub_space_after_punct cs)"
  by pat_completeness auto
termination
proof (relation "measure length", goal_cases)
  case (3 c cs u rest)
  have "length (dropWhile isspace cs) \<le> length cs"
    by (rule length_dropWhile_le)
  with 3 show ?case by simp
qed auto

text \<open>\<open>re.sub(r'[^\w\s.,!?;:()\'"-]', '', text)\<close> keeps the characters of the class:\<close>

definition iskept :: "char \<Rightarrow> bool" where
  "iskept c = (isword c \<or> isspace c \<or> c \<in> set (''.,!?;:()'' @ [CHR 0x27, CHR 0x22] @ ''-''))"

definition sub_special :: "string \<Rightarrow> string" where
  "sub_special text = filter iskept text"

definition clean_text :: "string \<Rightarrow> string" where
  "clean_text text =
     strip (sub_special (sub_space_after_punct (sub_space_before_punct (sub_whitespace text))))"

section \<open>Story pagination: \<open>TextProcessor.split_story_into_pages\<close>\<close>

text \<open>\<open>" ".join(xs)\<close>:\<close>

fun join_space :: "string list \<Rightarrow> string" where
  "join_space [] = []"
| "join_space [x] = x"
| "join_space (x # y # ys) = x @ '' '' @ join_space (y # ys)"

text \<open>\<open>str.lower\<close> on the modelled range maps every character to one character.\<close>

definition lower_char :: "char \<Rightarrow> char" where
  "lower_char c =
     (if (65 \<le> cp c \<and> cp c \<le> 90) \<or> (192 \<le> cp c \<and> cp c \<le> 214) \<or> (216 \<le> cp c \<and> cp c \<le> 222)
      then char_of (cp c + 32) else c)"

definition lower :: "string \<Rightarrow> string" where
  "lower s = map lower_char s"

text \<open>\<open>s.startswith(w)\<close>, and the substring test \<open>w in s\<close>:\<close>

fun startswith :: "string \<Rightarrow> string \<Rightarrow> bool" where
  "startswith s [] = True"
| "startswith [] (w # ws) = False"
| "startswith (c # cs) (w # ws) = (c = w \<and> startswith cs ws)"

fun contains :: "string \<Rightarrow> string \<Rightarrow> bool" where
  "contains [] w = (w = [])"
| "contains (c # cs) w = (startswith (c # cs) w \<or> contains cs w)"

definition break_words :: "string list" where
  "break_words = [''but'', ''however'', ''then'', ''so'', ''and'', ''or'', ''finally'', ''suddenly'']"

text \<open>
  The decision taken after a sentence is appended: \<open>current_page\<close> and
  \<open>current_length\<close> already include \<open>sentence\<close>.
\<close>

definition should_new_page :: "string list \<Rightarrow> nat \<Rightarrow> string \<Rightarrow> bool" where
  "should_new_page current_page current_length sentence =
     (if length current_page \<ge> 4 then True
      else if current_length > 300 \<and> length current_page \<ge> 2 then True
      else if length current_page \<ge> 3 \<and> current_length > 200
        then list_ex (\<lambda>word. contains (lower sentence) word) break_words
      else False)"

fun pages_loop ::
  "string list \<Rightarrow> string list \<times> string list \<times> nat \<Rightarrow> string list \<times> string list \<times> nat" where
  "pages_loop [] (pages, current_page, current_length) = (pages, current_page, current_length)"
| "pages_loop (sentence # sentences) (pages, current_page, current_length) =
     (if should_new_page (current_page @ [sentence]) (current_length + length sentence) sentence
      then pages_loop sentences (pages @ [join_space (current_page @ [sentence])], [], 0)
      else pages_loop sentences
             (pages, current_page @ [sentence], current_length + length sentence))"

text \<open>The body of the function after the sentences are stripped and the empty ones dropped.\<close>

definition paginate_sentences :: "string list \<Rightarrow> string list" where
  "paginate_sentences sentences =
     (case pages_loop sentences ([], [], 0) of
        (pages, current_page, current_length) \<Rightarrow>
          if current_page \<noteq> [] then pages @ [join_space current_page] else pages)"

definition nonempty_stripped :: "string list \<Rightarrow> string list" where
  "nonempty_stripped sentences = map strip (filter (\<lambda>s. strip s \<noteq> []) sentences)"

definition split_story_into_pages ::
  "(string \<Rightarrow> exn + string list) \<Rightarrow> string \<Rightarrow> int \<Rightarrow> exn + string list" where
  "split_story_into_pages sent_tokenize story_text sentences_per_page =
     (case sent_tokenize (clean_text story_text) of
        Inl e \<Rightarrow> Inl e
      | Inr sentences \<Rightarrow> Inr (paginate_sentences (nonempty_stripped sentences)))"

text \<open>
  In the source \<open>current_page\<close> is the list of the sentences of the page being
  built, and a closed page is its join. \<open>groups_loop\<close> is the same loop keeping each
  closed \<open>current_page\<close> as it is, so that the sentences of a page can be counted.
\<close>

fun groups_loop ::
  "string list \<Rightarrow> string list list \<times> string list \<times> nat \<Rightarrow> string list list \<times> string list \<times> nat" where
  "groups_loop [] (groups, current_page, current_length) = (groups, current_page, current_length)"
| "groups_loop (sentence # sentences) (groups, current_page, current_length) =
     (if should_new_page (current_page @ [sentence]) (current_length + length sentence) sentence
      then groups_loop sentences (groups @ [current_page @ [sentence]], [], 0)
      else groups_loop sentences
             (groups, current_page @ [sentence], current_length + length sentence))"

definition page_groups :: "string list \<Rightarrow> string list list" where
  "page_groups sentences =
     (case groups_loop sentences ([], [], 0) of
        (groups, current_page, current_length) \<Rightarrow>
          if current_page \<noteq> [] then groups @ [current_page] else groups)"

section \<open>The pagination policy in the words of the specification\<close>

text \<open>
  Section 4.4 of the specification: each sentence is appended to the current page and
  added to the cumulative length; then the page is closed if it has reached 4 sentences;
  else if the length exceeds 300 and the page has at least 2 sentences; else if the page
  has at least 3 sentences, the length exceeds 200 and the lowercased sentence contains
  one of the discourse markers; otherwise the accumulation goes on. A closed page is the
  join of its sentences with single spaces, and the accumulator restarts empty. What is
  left after the last sentence is a final page.
\<close>

definition discourse_markers :: "string list" where
  "discourse_markers = [''but'', ''however'', ''then'', ''so'', ''and'', ''or'', ''finally'', ''suddenly'']"

fun paginate_spec :: "string list \<Rightarrow> nat \<Rightarrow> string list \<Rightarrow> string list" where
  "paginate_spec page len [] = (if page = [] then [] else [join_space page])"
| "paginate_spec page len (s # ss) =
     (if length (page @ [s]) = 4
        then join_space (page @ [s]) # paginate_spec [] 0 ss
      else if len + length s > 300 \<and> length (page @ [s]) \<ge> 2
        then join_space (page @ [s]) # paginate_spec [] 0 ss
      else if length (page @ [s]) \<ge> 3 \<and> len + length s > 200 \<and>
              list_ex (contains (lower s)) discourse_markers
        then join_space (page @ [s]) # paginate_spec [] 0 ss
      else paginate_spec (page @ [s]) (len + length s) ss)"

section \<open>Words of a text\<close>

text \<open>
  \<open>str.split()\<close> without argument: the maximal runs of characters that are not white
  space. It is the measure of the word content of chunks and pages.
\<close>

function split_ws :: "string \<Rightarrow> string list" where
  "split_ws s =
     (case dropWhile isspace s of
        [] \<Rightarrow> []
      | c # cs \<Rightarrow>
          (c # takeWhile (\<lambda>x. \<not> isspace x) cs) # split_ws (dropWhile (\<lambda>x. \<not> isspace x) cs))"
  by pat_completeness auto
termination
proof (relation "measure length", goal_cases)
  case (2 s c cs)
  have "length (dropWhile (\<lambda>x. \<not> isspace x) cs) \<le> length cs"
    by (rule length_dropWhile_le)
  moreover have "length (dropWhile isspace s) \<le> length s"
    by (rule length_dropWhile_le)
  ultimately show ?case using 2 by simp
qed simp

declare split_ws.simps [simp del]

section \<open>Pairs of neighbours that normalization removes\<close>

text \<open>
  The three substitutions of \<open>clean_text\<close> act on neighbouring characters: a white
  space after a white space, a white space before a punctuation mark, a punctuation mark
  before a capital letter. A text is left as it is when it has no such pair.
\<close>

definition no_double_space :: "char \<Rightarrow> char \<Rightarrow> bool" where
  "no_double_space a b = (\<not> (isspace a \<and> isspace b))"

definition no_space_before_punct :: "char \<Rightarrow> char \<Rightarrow> bool" where
  "no_space_before_punct a b = (\<not> (isspace a \<and> ispunct b))"

definition no_punct_before_upper :: "char \<Rightarrow> char \<Rightarrow> bool" where
  "no_punct_before_upper a b = (\<not> (ispunct a \<and> isupperAZ b))"

definition plain_spaces :: "string \<Rightarrow> bool" where
  "plain_spaces s = (\<forall>c\<in>set s. isspace c \<longrightarrow> c = CHR '' '')"

section \<open>Evaluation of the character classes\<close>

lemma cp_simps [simp]: "cp (Char b0 b1 b2 b3 b4 b5 b6 b7) = of_char (Char b0 b1 b2 b3 b4 b5 b6 b7)"
  by (simp add: cp_def)

section \<open>Facts about \<open>strip\<close> and the chunking loop\<close>

lemma strip_eq_Nil: "strip s = [] \<longleftrightarrow> (\<forall>c\<in>set s. isspace c)"
proof
  assume "strip s = []"
  then have "\<forall>c\<in>set (dropWhile isspace s). isspace c"
    by (simp add: strip_def)
  then have "dropWhile isspace s = []"
    by (metis hd_dropWhile list.set_sel(1))
  then show "\<forall>c\<in>set s. isspace c"
    by simp
next
  assume "\<forall>c\<in>set s. isspace c"
  then show "strip s = []"
    by (auto simp: strip_def dest: set_dropWhileD)
qed

lemma strip_Nil [simp]: "strip [] = []"
  by (simp add: strip_def)

lemma strip_not_Nil_D: "strip s \<noteq> [] \<Longrightarrow> s \<noteq> []"
  by auto

lemma strip_append_left: "strip a \<noteq> [] \<Longrightarrow> strip (a @ b) \<noteq> []"
  by (auto simp: strip_eq_Nil)

lemma strip_append_right: "strip b \<noteq> [] \<Longrightarrow> strip (a @ b) \<noteq> []"
  by (auto simp: strip_eq_Nil)

lemma dropWhile_rev_dropWhile:
  "dropWhile P (rev (dropWhile P (rev (dropWhile P xs)))) = rev (dropWhile P (rev (dropWhile P xs)))"
proof (cases "dropWhile P xs")
  case Nil
  show ?thesis unfolding Nil by simp
next
  case (Cons y ys)
  then have ny: "\<not> P y"
    by (metis hd_dropWhile list.sel(1) list.distinct(1))
  have "rev (dropWhile P (rev (y # ys))) = y # rev (dropWhile P (rev ys))"
    using ny by (simp add: dropWhile_append)
  then show ?thesis unfolding Cons using ny by simp
qed

lemma strip_idem [simp]: "strip (strip s) = strip s"
  by (simp add: strip_def dropWhile_rev_dropWhile)

lemma segment_loop_append:
  "segment_loop m (xs @ ys) st = segment_loop m ys (segment_loop m xs st)"
proof (induction xs arbitrary: st)
  case Nil
  show ?case by (cases st) simp
next
  case (Cons x xs)
  show ?case by (cases st) (simp add: Cons.IH)
qed

lemma segment_loop_chunks:
  "segment_loop m ss (chunks, cur) =
     (chunks @ fst (segment_loop m ss ([], cur)), snd (segment_loop m ss ([], cur)))"
proof (induction ss arbitrary: chunks cur)
  case Nil
  show ?case by simp
next
  case (Cons s ss)
  show ?case
  proof (cases "int (length (cur @ s)) > m \<and> cur \<noteq> []")
    case True
    have a: "segment_loop m (s # ss) (chunks, cur) = segment_loop m ss (chunks @ [strip cur], s)"
      using True by simp
    have b: "segment_loop m (s # ss) ([], cur) = segment_loop m ss ([strip cur], s)"
      using True by simp
    have c: "segment_loop m ss (chunks @ [strip cur], s) =
        ((chunks @ [strip cur]) @ fst (segment_loop m ss ([], s)), snd (segment_loop m ss ([], s)))"
      by (rule Cons.IH)
    have d: "segment_loop m ss ([strip cur], s) =
        ([strip cur] @ fst (segment_loop m ss ([], s)), snd (segment_loop m ss ([], s)))"
      by (rule Cons.IH)
    show ?thesis
      unfolding a b c d by simp
  next
    case False
    let ?c = "if cur \<noteq> [] then cur @ '' '' @ s else s"
    have a: "segment_loop m (s # ss) (chunks, cur) = segment_loop m ss (chunks, ?c)"
      using False by auto
    have b: "segment_loop m (s # ss) ([], cur) = segment_loop m ss ([], ?c)"
      using False by auto
    show ?thesis
      unfolding a b by (rule Cons.IH)
  qed
qed

lemma segment_loop_invariant:
  assumes "\<forall>s\<in>set ss. strip s \<noteq> []"
    and "\<forall>c\<in>set chunks. c \<noteq> [] \<and> strip c = c"
    and "cur = [] \<or> strip cur \<noteq> []"
  shows "(\<forall>c\<in>set (fst (segment_loop m ss (chunks, cur))). c \<noteq> [] \<and> strip c = c) \<and>
         (snd (segment_loop m ss (chunks, cur)) = [] \<or> strip (snd (segment_loop m ss (chunks, cur))) \<noteq> [])"
  using assms
proof (induction ss arbitrary: chunks cur)
  case Nil
  then show ?case by simp
next
  case (Cons s ss)
  have s: "strip s \<noteq> []" using Cons.prems(1) by simp
  have ss: "\<forall>s\<in>set ss. strip s \<noteq> []" using Cons.prems(1) by simp
  show ?case
  proof (cases "int (length (cur @ s)) > m \<and> cur \<noteq> []")
    case True
    then have "strip cur \<noteq> []" using Cons.prems(3) by simp
    then have c: "\<forall>c\<in>set (chunks @ [strip cur]). c \<noteq> [] \<and> strip c = c"
      using Cons.prems(2) by simp
    have e: "segment_loop m (s # ss) (chunks, cur) = segment_loop m ss (chunks @ [strip cur], s)"
      using True by simp
    have "s = [] \<or> strip s \<noteq> []" using s by simp
    from Cons.IH [OF ss c this] show ?thesis
      unfolding e .
  next
    case False
    let ?c = "if cur \<noteq> [] then cur @ '' '' @ s else s"
    have "strip ?c \<noteq> []"
      using s by (auto simp: strip_eq_Nil)
    then have c: "?c = [] \<or> strip ?c \<noteq> []" ..
    have e: "segment_loop m (s # ss) (chunks, cur) = segment_loop m ss (chunks, ?c)"
      using False by auto
    from Cons.IH [OF ss Cons.prems(2) c] show ?thesis
      unfolding e .
  qed
qed

lemma segment_chunks_trimmed:
  assumes "\<forall>s\<in>set sentences. strip s \<noteq> []"
  shows "\<forall>c\<in>set (segment_sentences m sentences). c \<noteq> [] \<and> strip c = c"
proof -
  obtain chunks cur where l: "segment_loop m sentences ([], []) = (chunks, cur)"
    by (cases "segment_loop m sentences ([], [])")
  have "\<forall>c\<in>set (fst (segment_loop m sentences ([], []))). c \<noteq> [] \<and> strip c = c"
    using segment_loop_invariant [OF assms, of "[]" "[]" m] by simp
  then have "\<forall>c\<in>set chunks. c \<noteq> [] \<and> strip c = c"
    by (simp add: l)
  then show ?thesis
    by (simp add: segment_sentences_def l)
qed

lemma segment_sentences_alt:
  "segment_sentences m ss =
     fst (segment_loop m ss ([], [])) @
       (if strip (snd (segment_loop m ss ([], []))) \<noteq> [] then [strip (snd (segment_loop m ss ([], [])))] else [])"
  by (simp add: segment_sentences_def split: prod.splits)

lemma segment_after_long:
  assumes "int (length s) > m" and "strip s \<noteq> []"
  shows "fst (segment_loop m post ([], s)) @
           (if strip (snd (segment_loop m post ([], s))) \<noteq> [] then [strip (snd (segment_loop m post ([], s)))] else [])
         = strip s # segment_sentences m post"
proof (cases post)
  case Nil
  then show ?thesis using assms by (simp add: segment_sentences_def)
next
  case (Cons t ts)
  have ne: "s \<noteq> []" using assms(2) by auto
  have "int (length (s @ t)) > m" using assms(1) by simp
  then have a: "segment_loop m (t # ts) ([], s) = segment_loop m ts ([strip s], t)"
    using ne by simp
  have b: "segment_loop m (t # ts) ([], []) = segment_loop m ts ([], t)"
    by simp
  have c: "segment_loop m ts ([strip s], t) =
      ([strip s] @ fst (segment_loop m ts ([], t)), snd (segment_loop m ts ([], t)))"
    by (rule segment_loop_chunks)
  show ?thesis
    unfolding Cons segment_sentences_alt a b c by simp
qed

lemma long_sentence_own_chunk:
  assumes long: "int (length s) > m" and s: "strip s \<noteq> []"
    and pre: "\<forall>x\<in>set pre. strip x \<noteq> []"
  shows "segment_sentences m (pre @ s # post) =
           segment_sentences m pre @ [strip s] @ segment_sentences m post"
proof -
  obtain ch cur where l: "segment_loop m pre ([], []) = (ch, cur)"
    by (cases "segment_loop m pre ([], [])")
  have "snd (segment_loop m pre ([], [])) = [] \<or> strip (snd (segment_loop m pre ([], []))) \<noteq> []"
    using segment_loop_invariant [OF pre, of "[]" "[]" m] by simp
  then have inv: "cur = [] \<or> strip cur \<noteq> []"
    by (simp add: l)
  have p: "segment_sentences m pre = (if cur \<noteq> [] then ch @ [strip cur] else ch)"
    using inv by (auto simp: segment_sentences_def l)
  have "int (length (cur @ s)) > m" using long by simp
  then have step: "segment_loop m (s # post) (ch, cur) = segment_loop m post (segment_sentences m pre, s)"
    by (simp add: p)
  have "segment_loop m (pre @ s # post) ([], []) = segment_loop m post (segment_sentences m pre, s)"
    by (simp add: segment_loop_append l step del: segment_loop.simps)
  also have "\<dots> = (segment_sentences m pre @ fst (segment_loop m post ([], s)), snd (segment_loop m post ([], s)))"
    by (rule segment_loop_chunks)
  finally have e: "segment_loop m (pre @ s # post) ([], []) =
      (segment_sentences m pre @ fst (segment_loop m post ([], s)), snd (segment_loop m post ([], s)))" .
  have "segment_sentences m (pre @ s # post) = segment_sentences m pre @
      (fst (segment_loop m post ([], s)) @
        (if strip (snd (segment_loop m post ([], s))) \<noteq> [] then [strip (snd (segment_loop m post ([], s)))] else []))"
    by (simp add: segment_sentences_alt [of m "pre @ s # post"] e)
  then show ?thesis
    by (simp add: segment_after_long [OF long s])
qed

section \<open>The character budget of a chunk\<close>

text \<open>
  What the loop guarantees: a chunk is at most one character over the budget, unless it
  is a single stripped sentence.
\<close>

lemma length_strip_le: "length (strip s) \<le> length s"
proof -
  have "length (dropWhile isspace (rev (dropWhile isspace s))) \<le> length (rev (dropWhile isspace s))"
    by (rule length_dropWhile_le)
  moreover have "length (dropWhile isspace s) \<le> length s"
    by (rule length_dropWhile_le)
  ultimately show ?thesis
    by (simp add: strip_def)
qed

lemma segment_loop_budget:
  assumes "\<forall>c\<in>set chunks. int (length c) \<le> m + 1 \<or> c \<in> strip ` S"
    and "int (length cur) \<le> m + 1 \<or> cur \<in> S \<or> cur = []"
    and "set ss \<subseteq> S"
  shows "(\<forall>c\<in>set (fst (segment_loop m ss (chunks, cur))). int (length c) \<le> m + 1 \<or> c \<in> strip ` S) \<and>
         (int (length (snd (segment_loop m ss (chunks, cur)))) \<le> m + 1 \<or>
          snd (segment_loop m ss (chunks, cur)) \<in> S \<or> snd (segment_loop m ss (chunks, cur)) = [])"
  using assms
proof (induction ss arbitrary: chunks cur)
  case Nil
  then show ?case by simp
next
  case (Cons s ss)
  have s: "s \<in> S" and ss: "set ss \<subseteq> S" using Cons.prems(3) by simp_all
  show ?case
  proof (cases "int (length (cur @ s)) > m \<and> cur \<noteq> []")
    case True
    have e: "segment_loop m (s # ss) (chunks, cur) = segment_loop m ss (chunks @ [strip cur], s)"
      using True by simp
    have "int (length (strip cur)) \<le> m + 1 \<or> strip cur \<in> strip ` S"
      using Cons.prems(2) True length_strip_le [of cur] by auto
    then have c: "\<forall>c\<in>set (chunks @ [strip cur]). int (length c) \<le> m + 1 \<or> c \<in> strip ` S"
      using Cons.prems(1) by simp
    have n: "int (length s) \<le> m + 1 \<or> s \<in> S \<or> s = []" using s by simp
    show ?thesis
      unfolding e by (rule Cons.IH [OF c n ss])
  next
    case False
    let ?c = "if cur \<noteq> [] then cur @ '' '' @ s else s"
    have e: "segment_loop m (s # ss) (chunks, cur) = segment_loop m ss (chunks, ?c)"
      using False by auto
    have n: "int (length ?c) \<le> m + 1 \<or> ?c \<in> S \<or> ?c = []"
      using False s by auto
    show ?thesis
      unfolding e by (rule Cons.IH [OF Cons.prems(1) n ss])
  qed
qed

lemma segment_budget_with_separator:
  "\<forall>c\<in>set (segment_sentences m sentences).
     int (length c) \<le> m + 1 \<or> (\<exists>s\<in>set sentences. c = strip s)"
proof -
  obtain chunks cur where l: "segment_loop m sentences ([], []) = (chunks, cur)"
    by (cases "segment_loop m sentences ([], [])")
  have "(\<forall>c\<in>set (fst (segment_loop m sentences ([], []))).
           int (length c) \<le> m + 1 \<or> c \<in> strip ` set sentences) \<and>
         (int (length (snd (segment_loop m sentences ([], [])))) \<le> m + 1 \<or>
          snd (segment_loop m sentences ([], [])) \<in> set sentences \<or>
          snd (segment_loop m sentences ([], [])) = [])"
    by (rule segment_loop_budget) simp_all
  then have a: "\<forall>c\<in>set chunks. int (length c) \<le> m + 1 \<or> c \<in> strip ` set sentences"
    and b: "int (length cur) \<le> m + 1 \<or> cur \<in> set sentences \<or> cur = []"
    unfolding l by simp_all
  have "int (length (strip cur)) \<le> m + 1 \<or> strip cur \<in> strip ` set sentences \<or> strip cur = []"
    using b length_strip_le [of cur] by auto
  then show ?thesis
    using a by (auto simp: segment_sentences_def l)
qed

text \<open>
  C1. The budget is tested on \<open>len(current_chunk + sentence)\<close>, without the separating
  space that is then inserted: two sentences of 14 and 15 characters pass the test for a
  budget of 29 and form a chunk of 30 characters, which holds two sentences.
\<close>

theorem segment_budget_exceeded_by_separator:
  "segment_text_for_audio (\<lambda>t. Inr [''It works well.'', ''This is a test.''])
     ''It works well. This is a test.'' 29 = Inr [''It works well. This is a test.'']
   \<and> int (length ''It works well. This is a test.'') = 30"
  by (simp add: segment_text_for_audio_def segment_sentences_def strip_def isspace_def)

section \<open>Shape of the chunks\<close>

text \<open>
  C10. When the tokenizer returns sentences none of which is empty or white space only (as
  NLTK's does), every chunk returned by \<open>segment_text_for_audio\<close> is non-empty and
  has no leading or trailing white space: it is equal to its own \<open>strip()\<close>.
\<close>

theorem audio_chunks_nonempty_trimmed:
  assumes "sent_tokenize text = Inr sentences"
    and "\<forall>s\<in>set sentences. strip s \<noteq> []"
  shows "segment_text_for_audio sent_tokenize text max_chunk_size =
           Inr (segment_sentences max_chunk_size sentences) \<and>
         (\<forall>c\<in>set (segment_sentences max_chunk_size sentences). c \<noteq> [] \<and> strip c = c)"
  using assms(1) segment_chunks_trimmed [OF assms(2), of max_chunk_size]
  by (simp add: segment_text_for_audio_def)

theorem audio_chunks_nonempty_trimmed_witness:
  "segment_text_for_audio (\<lambda>t. Inr ['' Hi.'', ''Yo.'']) '' Hi. Yo.'' 3 = Inr [''Hi.'', ''Yo.'']
   \<and> strip ''Hi.'' = ''Hi.'' \<and> strip ''Yo.'' = ''Yo.''"
proof -
  have h2: "\<forall>s\<in>set ['' Hi.'', ''Yo.'']. strip s \<noteq> []"
    by (simp add: strip_def isspace_def)
  have e: "segment_sentences 3 ['' Hi.'', ''Yo.''] = [''Hi.'', ''Yo.'']"
    by (simp add: segment_sentences_def strip_def isspace_def)
  have t: "segment_text_for_audio (\<lambda>t. Inr ['' Hi.'', ''Yo.'']) '' Hi. Yo.'' 3 =
           Inr (segment_sentences 3 ['' Hi.'', ''Yo.'']) \<and>
         (\<forall>c\<in>set (segment_sentences 3 ['' Hi.'', ''Yo.'']). c \<noteq> [] \<and> strip c = c)"
    by (rule audio_chunks_nonempty_trimmed [of "\<lambda>t. Inr ['' Hi.'', ''Yo.'']" "'' Hi. Yo.''" "['' Hi.'', ''Yo.'']" 3])
       (simp, rule h2)
  show ?thesis
    using t unfolding e by simp
qed

text \<open>
  C7. A sentence longer than \<open>max_chunk_size\<close> is emitted as a chunk of its own,
  stripped, between the chunks of the sentences before it and the chunks of the sentences
  after it, whatever the budget. The sentences up to it are taken to hold a character that
  is not white space, as the tokenizer's do.
\<close>

theorem long_sentence_emitted_alone:
  assumes "sent_tokenize text = Inr (pre @ s # post)"
    and "int (length s) > max_chunk_size"
    and "strip s \<noteq> []"
    and "\<forall>x\<in>set pre. strip x \<noteq> []"
  shows "segment_text_for_audio sent_tokenize text max_chunk_size =
           Inr (segment_sentences max_chunk_size pre @ [strip s] @
                segment_sentences max_chunk_size post)"
  using assms(1) long_sentence_own_chunk [OF assms(2,3,4), of post]
  by (simp add: segment_text_for_audio_def)

theorem long_sentence_emitted_alone_witness:
  "segment_text_for_audio (\<lambda>t. Inr [''Hi.'', ''A long sentence.'', ''Yo.''])
     ''Hi. A long sentence. Yo.'' 8 = Inr [''Hi.'', ''A long sentence.'', ''Yo.'']"
proof -
  have h2: "int (length ''A long sentence.'') > 8"
    by simp
  have h3: "strip ''A long sentence.'' \<noteq> []"
    by (simp add: strip_def isspace_def)
  have h4: "\<forall>x\<in>set [''Hi.'']. strip x \<noteq> []"
    by (simp add: strip_def isspace_def)
  have e: "segment_sentences 8 [''Hi.''] = [''Hi.'']" "segment_sentences 8 [''Yo.''] = [''Yo.'']"
      "strip ''A long sentence.'' = ''A long sentence.''"
    by (simp_all add: segment_sentences_def strip_def isspace_def)
  have t: "segment_text_for_audio (\<lambda>t. Inr [''Hi.'', ''A long sentence.'', ''Yo.''])
      ''Hi. A long sentence. Yo.'' 8 =
      Inr (segment_sentences 8 [''Hi.''] @ [strip ''A long sentence.''] @ segment_sentences 8 [''Yo.''])"
    by (rule long_sentence_emitted_alone
          [of "\<lambda>t. Inr [''Hi.'', ''A long sentence.'', ''Yo.'']" "''Hi. A long sentence. Yo.''"
              "[''Hi.'']" "''A long sentence.''" "[''Yo.'']" 8])
       (simp, rule h2, rule h3, rule h4)
  show ?thesis
    using t unfolding e by simp
qed

section \<open>The fallback of \<open>split_text_into_chunks\<close>\<close>

lemma concat_windows:
  "0 < n \<Longrightarrow> concat (map (\<lambda>k. take n (drop (k * n) xs)) [0 ..< m]) = take (m * n) xs"
proof (induction m)
  case 0
  then show ?case by simp
next
  case (Suc m)
  have "take (m * n) xs @ take n (drop (m * n) xs) = take (m * n + n) xs"
    by (simp add: take_add)
  then show ?case using Suc by (simp add: add.commute)
qed

lemma windows_cover:
  assumes "0 < n"
  shows "length xs \<le> ((length xs + n - 1) div n) * n"
proof -
  have "(length xs + n - 1) mod n < n" using assms by simp
  moreover have "(length xs + n - 1) = ((length xs + n - 1) div n) * n + (length xs + n - 1) mod n"
    by simp
  ultimately show ?thesis by linarith
qed

lemma windows_tight:
  assumes "0 < n" and "k < (length xs + n - 1) div n"
  shows "k * n < length xs"
proof -
  have "Suc k \<le> (length xs + n - 1) div n" using assms(2) by simp
  then have "Suc k * n \<le> ((length xs + n - 1) div n) * n"
    by (rule mult_le_mono1)
  also have "\<dots> \<le> length xs + n - 1"
    by simp
  finally show ?thesis using assms(1) by simp
qed

text \<open>
  C8. When \<open>sent_tokenize\<close> raises, \<open>split_text_into_chunks\<close> returns normally, for
  every \<open>chunk_size \<ge> 1\<close> (the precondition of the chunker): the result is the list of
  the consecutive windows \<open>text[k*chunk_size : (k+1)*chunk_size]\<close>, none of them empty,
  all of them but possibly the last of \<open>chunk_size\<close> characters, and their
  concatenation is the text.
\<close>

theorem fallback_fixed_width_slices:
  assumes "sent_tokenize text = Inl e" and "1 \<le> chunk_size"
  shows "\<exists>ws. split_text_into_chunks sent_tokenize text chunk_size = Inr ws \<and>
           concat ws = text \<and>
           length ws = (length text + nat chunk_size - 1) div nat chunk_size \<and>
           (\<forall>k < length ws. ws ! k = take (nat chunk_size) (drop (k * nat chunk_size) text) \<and>
              ws ! k \<noteq> [] \<and>
              (Suc k < length ws \<longrightarrow> length (ws ! k) = nat chunk_size))"
proof -
  let ?n = "nat chunk_size"
  let ?m = "(length text + ?n - 1) div ?n"
  let ?ws = "map (\<lambda>k. take ?n (drop (k * ?n) text)) [0 ..< ?m]"
  have n: "0 < ?n" using assms(2) by simp
  have r: "split_text_into_chunks sent_tokenize text chunk_size = Inr ?ws"
    using assms by (simp add: split_text_into_chunks_def segment_text_for_audio_def range0_def o_def)
  have c: "concat ?ws = text"
    using concat_windows [OF n, of "text" ?m] windows_cover [OF n, of "text"] by simp
  have l: "length ?ws = ?m" by simp
  have p: "\<forall>k < length ?ws. ?ws ! k = take ?n (drop (k * ?n) text) \<and> ?ws ! k \<noteq> [] \<and>
              (Suc k < length ?ws \<longrightarrow> length (?ws ! k) = ?n)"
  proof (intro allI impI)
    fix k assume k: "k < length ?ws"
    then have k': "k < ?m" by simp
    have w: "?ws ! k = take ?n (drop (k * ?n) text)"
      using k' by simp
    have lt: "k * ?n < length text"
      using windows_tight [OF n k'] .
    have ne: "?ws ! k \<noteq> []"
      unfolding w using lt n by simp
    have full: "length (?ws ! k) = ?n" if "Suc k < length ?ws"
    proof -
      from that have "Suc k < ?m" by simp
      then have "Suc k * ?n < length text" by (rule windows_tight [OF n])
      then show ?thesis unfolding w by simp
    qed
    show "?ws ! k = take ?n (drop (k * ?n) text) \<and> ?ws ! k \<noteq> [] \<and>
              (Suc k < length ?ws \<longrightarrow> length (?ws ! k) = ?n)"
      using w ne full by blast
  qed
  show ?thesis
    using r c l p by blast
qed

theorem fallback_fixed_width_slices_witness:
  "split_text_into_chunks (\<lambda>t. Inl LookupError) ''abcdefg'' 3 = Inr [''abc'', ''def'', ''g'']
   \<and> concat [''abc'', ''def'', ''g''] = ''abcdefg''"
proof -
  have "\<exists>ws. split_text_into_chunks (\<lambda>t. Inl LookupError) ''abcdefg'' 3 = Inr ws \<and>
           concat ws = ''abcdefg'' \<and>
           length ws = (length ''abcdefg'' + nat 3 - 1) div nat 3 \<and>
           (\<forall>k < length ws. ws ! k = take (nat 3) (drop (k * nat 3) ''abcdefg'') \<and>
              ws ! k \<noteq> [] \<and>
              (Suc k < length ws \<longrightarrow> length (ws ! k) = nat 3))"
    by (rule fallback_fixed_width_slices [of "\<lambda>t. Inl LookupError" "''abcdefg''" LookupError 3])
      simp_all
  then obtain ws where w: "split_text_into_chunks (\<lambda>t. Inl LookupError) ''abcdefg'' 3 = Inr ws"
    and c: "concat ws = ''abcdefg''"
    by blast
  have e: "split_text_into_chunks (\<lambda>t. Inl LookupError) ''abcdefg'' 3 = Inr [''abc'', ''def'', ''g'']"
    by code_simp
  from w e have "ws = [''abc'', ''def'', ''g'']"
    by simp
  with w c show ?thesis
    by simp
qed

text \<open>
  Outside that precondition the \<open>except\<close> branch itself fails or loses the text: a
  step of zero makes \<open>range\<close> raise, a negative step gives no window at all.
\<close>

lemma fallback_zero_step:
  "sent_tokenize text = Inl e \<Longrightarrow> split_text_into_chunks sent_tokenize text 0 = Inl ValueError"
  by (simp add: split_text_into_chunks_def segment_text_for_audio_def range0_def)

lemma fallback_negative_step:
  "sent_tokenize text = Inl e \<Longrightarrow> chunk_size < 0 \<Longrightarrow>
     split_text_into_chunks sent_tokenize text chunk_size = Inr []"
  by (simp add: split_text_into_chunks_def segment_text_for_audio_def range0_def)

section \<open>The page hint and the empty input\<close>

text \<open>
  C5. The result of \<open>split_story_into_pages\<close> does not depend on its argument
  \<open>sentences_per_page\<close>: any two hints give the same pages (or the same exception).
\<close>

theorem pagination_ignores_hint:
  "split_story_into_pages sent_tokenize story_text h1 =
   split_story_into_pages sent_tokenize story_text h2"
  by (simp add: split_story_into_pages_def)

text \<open>
  C9. On the empty text, for which the tokenizer returns no sentence, \<open>clean_text\<close>
  returns the empty text and both segmenters return the empty list, whatever the budget
  and the hint.
\<close>

theorem empty_input_empty_output:
  assumes "sent_tokenize [] = Inr []"
  shows "clean_text [] = [] \<and>
         segment_text_for_audio sent_tokenize [] max_chunk_size = Inr [] \<and>
         split_story_into_pages sent_tokenize [] sentences_per_page = Inr []"
proof -
  have c: "clean_text [] = []"
    by (simp add: clean_text_def sub_special_def)
  show ?thesis
    using assms
    by (simp add: c segment_text_for_audio_def segment_sentences_def split_story_into_pages_def
        paginate_sentences_def nonempty_stripped_def)
qed

theorem empty_input_empty_output_witness:
  "clean_text [] = [] \<and>
   segment_text_for_audio (\<lambda>t. if t = [] then Inr [] else Inr [t]) [] 500 = Inr [] \<and>
   split_story_into_pages (\<lambda>t. if t = [] then Inr [] else Inr [t]) [] 3 = Inr []"
  by (rule empty_input_empty_output [of "\<lambda>t. if t = [] then Inr [] else Inr [t]" 500 3]) simp

section \<open>The closing policy of the paginator\<close>

lemma markers_same: "discourse_markers = break_words"
  by (simp add: discourse_markers_def break_words_def)

lemma pages_loop_spec:
  "length cur < 4 \<Longrightarrow>
   (case pages_loop ss (pages, cur, len) of
      (pages', cur', len') \<Rightarrow> if cur' \<noteq> [] then pages' @ [join_space cur'] else pages')
   = pages @ paginate_spec cur len ss"
proof (induction ss arbitrary: pages cur len)
  case Nil
  then show ?case by simp
next
  case (Cons s ss)
  show ?case
  proof (cases "should_new_page (cur @ [s]) (len + length s) s")
    case True
    have a: "pages_loop (s # ss) (pages, cur, len) =
        pages_loop ss (pages @ [join_space (cur @ [s])], [], 0)"
      using True by simp
    have b: "paginate_spec cur len (s # ss) = join_space (cur @ [s]) # paginate_spec [] 0 ss"
      using True Cons.prems
      by (auto simp: should_new_page_def markers_same split: if_splits)
    have c: "(case pages_loop ss (pages @ [join_space (cur @ [s])], [], 0) of
        (pages', cur', len') \<Rightarrow> if cur' \<noteq> [] then pages' @ [join_space cur'] else pages')
        = (pages @ [join_space (cur @ [s])]) @ paginate_spec [] 0 ss"
      by (rule Cons.IH) simp
    show ?thesis
      unfolding a b c by simp
  next
    case False
    have a: "pages_loop (s # ss) (pages, cur, len) =
        pages_loop ss (pages, cur @ [s], len + length s)"
      using False by simp
    have lt: "length (cur @ [s]) < 4"
      using False by (auto simp: should_new_page_def split: if_splits)
    have b: "paginate_spec cur len (s # ss) = paginate_spec (cur @ [s]) (len + length s) ss"
      using False lt
      by (auto simp: should_new_page_def markers_same split: if_splits)
    have c: "(case pages_loop ss (pages, cur @ [s], len + length s) of
        (pages', cur', len') \<Rightarrow> if cur' \<noteq> [] then pages' @ [join_space cur'] else pages')
        = pages @ paginate_spec (cur @ [s]) (len + length s) ss"
      by (rule Cons.IH) (rule lt)
    show ?thesis
      unfolding a b c by simp
  qed
qed

lemma paginate_sentences_spec: "paginate_sentences ss = paginate_spec [] 0 ss"
  using pages_loop_spec [of "[]" ss "[]" 0] by (simp add: paginate_sentences_def)

text \<open>
  C3. \<open>split_story_into_pages\<close> computes the pagination of the specification: after
  each sentence is appended, the page is closed (1) when it has reached 4 sentences, (2)
  else when the cumulative length exceeds 300 and it has at least 2 sentences, (3) else
  when it has at least 3 sentences, the length exceeds 200 and the lowercased sentence
  contains one of the eight markers as a substring; otherwise the accumulation goes on,
  and what remains after the last sentence is the final page.
\<close>

theorem pagination_follows_policy:
  "split_story_into_pages sent_tokenize story_text sentences_per_page =
     (case sent_tokenize (clean_text story_text) of
        Inl e \<Rightarrow> Inl e
      | Inr sentences \<Rightarrow> Inr (paginate_spec [] 0 (nonempty_stripped sentences)))"
  by (simp add: split_story_into_pages_def paginate_sentences_spec split: sum.splits)

text \<open>
  A close by rule (3): the third sentence brings the length to 211, and \<open>and\<close> is found
  inside \<open>Sandy\<close>.
\<close>

theorem pagination_follows_policy_witness:
  "split_story_into_pages
     (\<lambda>t. Inr [replicate 100 CHR ''x'', replicate 101 CHR ''y'', ''Sandy ran.'', ''End.''])
     (replicate 100 CHR ''x'' @ '' '' @ replicate 101 CHR ''y'' @ '' Sandy ran. End.'') 3 =
   Inr [replicate 100 CHR ''x'' @ '' '' @ replicate 101 CHR ''y'' @ '' Sandy ran.'', ''End.'']"
proof -
  let ?raw = "[replicate 100 CHR ''x'', replicate 101 CHR ''y'', ''Sandy ran.'', ''End.'']"
  have x: "strip (replicate 100 CHR ''x'') = replicate 100 CHR ''x''"
    "strip (replicate 101 CHR ''y'') = replicate 101 CHR ''y''"
    by (simp_all add: strip_def isspace_def)
  have n: "nonempty_stripped ?raw = ?raw"
    by (simp add: nonempty_stripped_def x) (simp add: strip_def isspace_def)
  have m: "list_ex (contains (lower ''Sandy ran.'')) discourse_markers"
    by code_simp
  have p: "paginate_spec [] 0 ?raw =
      [replicate 100 CHR ''x'' @ '' '' @ replicate 101 CHR ''y'' @ '' Sandy ran.'', ''End.'']"
    using m by simp
  show ?thesis
    using pagination_follows_policy
      [of "\<lambda>t. Inr ?raw" "replicate 100 CHR ''x'' @ '' '' @ replicate 101 CHR ''y'' @ '' Sandy ran. End.''" 3]
    by (simp add: n p m del: paginate_spec.simps)
qed

section \<open>The size of a page\<close>

lemma groups_loop_pages:
  "pages_loop ss (map join_space gs, cur, len) =
     (case groups_loop ss (gs, cur, len) of (gs', cur', len') \<Rightarrow> (map join_space gs', cur', len'))"
proof (induction ss arbitrary: gs cur len)
  case Nil
  show ?case by simp
next
  case (Cons s ss)
  show ?case
  proof (cases "should_new_page (cur @ [s]) (len + length s) s")
    case True
    have "pages_loop (s # ss) (map join_space gs, cur, len) =
        pages_loop ss (map join_space (gs @ [cur @ [s]]), [], 0)"
      using True by simp
    also have "\<dots> = (case groups_loop ss (gs @ [cur @ [s]], [], 0) of
        (gs', cur', len') \<Rightarrow> (map join_space gs', cur', len'))"
      by (rule Cons.IH)
    finally show ?thesis using True by simp
  next
    case False
    have "pages_loop (s # ss) (map join_space gs, cur, len) =
        pages_loop ss (map join_space gs, cur @ [s], len + length s)"
      using False by simp
    also have "\<dots> = (case groups_loop ss (gs, cur @ [s], len + length s) of
        (gs', cur', len') \<Rightarrow> (map join_space gs', cur', len'))"
      by (rule Cons.IH)
    finally show ?thesis using False by simp
  qed
qed

lemma paginate_sentences_groups: "paginate_sentences ss = map join_space (page_groups ss)"
  using groups_loop_pages [of ss "[]" "[]" 0]
  by (simp add: paginate_sentences_def page_groups_def split: prod.splits)

lemma should_new_page_size:
  "should_new_page g n s \<Longrightarrow> 2 \<le> length g"
  by (auto simp: should_new_page_def split: if_splits)

lemma groups_loop_invariant:
  assumes "length cur < 4"
    and "\<forall>g\<in>set gs. should_new_page g (sum_list (map length g)) (last g) \<and> length g \<le> 4"
    and "len = sum_list (map length cur)"
    and "groups_loop ss (gs, cur, len) = (gs', cur', len')"
  shows "(\<forall>g\<in>set gs'. should_new_page g (sum_list (map length g)) (last g) \<and> length g \<le> 4)
         \<and> length cur' < 4 \<and> concat gs' @ cur' = concat gs @ cur @ ss"
  using assms
proof (induction ss arbitrary: gs cur len)
  case Nil
  then show ?case by simp
next
  case (Cons s ss)
  have l: "len + length s = sum_list (map length (cur @ [s]))"
    using Cons.prems(3) by simp
  show ?case
  proof (cases "should_new_page (cur @ [s]) (len + length s) s")
    case True
    have e: "groups_loop ss (gs @ [cur @ [s]], [], 0) = (gs', cur', len')"
      using Cons.prems(4) True by simp
    have "should_new_page (cur @ [s]) (sum_list (map length (cur @ [s]))) (last (cur @ [s]))"
      using True l by simp
    moreover have "length (cur @ [s]) \<le> 4"
      using Cons.prems(1) by simp
    ultimately have g: "\<forall>g\<in>set (gs @ [cur @ [s]]).
        should_new_page g (sum_list (map length g)) (last g) \<and> length g \<le> 4"
      using Cons.prems(2) by simp
    have z: "length ([] :: string list) < 4" "(0::nat) = sum_list (map length ([] :: string list))"
      by simp_all
    from Cons.IH [OF z(1) g z(2) e] show ?thesis
      by simp
  next
    case False
    have e: "groups_loop ss (gs, cur @ [s], len + length s) = (gs', cur', len')"
      using Cons.prems(4) False by simp
    have lt: "length (cur @ [s]) < 4"
      using False by (auto simp: should_new_page_def split: if_splits)
    from Cons.IH [OF lt Cons.prems(2) l e] show ?thesis
      by simp
  qed
qed

lemma page_groups_props:
  "concat (page_groups ss) = ss \<and>
   (\<forall>g\<in>set (page_groups ss). 1 \<le> length g \<and> length g \<le> 4) \<and>
   (\<forall>g\<in>set (butlast (page_groups ss)).
      should_new_page g (sum_list (map length g)) (last g) \<and> 2 \<le> length g)"
proof -
  obtain gs cur len where l: "groups_loop ss ([], [], 0) = (gs, cur, len)"
    by (cases "groups_loop ss ([], [], 0)")
  have inv: "(\<forall>g\<in>set gs. should_new_page g (sum_list (map length g)) (last g) \<and> length g \<le> 4)
         \<and> length cur < 4 \<and> concat gs @ cur = concat [] @ [] @ ss"
    by (rule groups_loop_invariant [OF _ _ _ l]) simp_all
  have closed: "\<forall>g\<in>set gs. should_new_page g (sum_list (map length g)) (last g) \<and>
      2 \<le> length g \<and> length g \<le> 4"
    using inv should_new_page_size by blast
  show ?thesis
  proof (cases "cur = []")
    case True
    then have p: "page_groups ss = gs" by (simp add: page_groups_def l)
    have "\<forall>g\<in>set (butlast gs). should_new_page g (sum_list (map length g)) (last g) \<and> 2 \<le> length g"
      using closed by (meson in_set_butlastD)
    then show ?thesis
      unfolding p using inv closed True by fastforce
  next
    case False
    then have p: "page_groups ss = gs @ [cur]" by (simp add: page_groups_def l)
    have "1 \<le> length cur" using False by (cases cur) simp_all
    then show ?thesis
      unfolding p using inv closed by fastforce
  qed
qed

text \<open>
  C6. The pages are the joins of consecutive groups of the sentences, each group of 1 to 4
  sentences; every group but the last was closed by the policy and so has at least 2
  sentences: only the final page can stay below every threshold.
\<close>

theorem page_size_invariant:
  assumes "sent_tokenize (clean_text story_text) = Inr raw"
  shows "split_story_into_pages sent_tokenize story_text sentences_per_page =
           Inr (map join_space (page_groups (nonempty_stripped raw))) \<and>
         concat (page_groups (nonempty_stripped raw)) = nonempty_stripped raw \<and>
         (\<forall>g\<in>set (page_groups (nonempty_stripped raw)). 1 \<le> length g \<and> length g \<le> 4) \<and>
         (\<forall>g\<in>set (butlast (page_groups (nonempty_stripped raw))).
            should_new_page g (sum_list (map length g)) (last g) \<and> 2 \<le> length g)"
  using assms page_groups_props [of "nonempty_stripped raw"]
  by (simp add: split_story_into_pages_def paginate_sentences_groups)

theorem page_size_invariant_witness:
  "split_story_into_pages (\<lambda>t. Inr [''A.'', ''B.'', ''C.'', ''D.'', ''E.'']) ''A. B. C. D. E.'' 3 =
     Inr [''A. B. C. D.'', ''E.'']
   \<and> page_groups [''A.'', ''B.'', ''C.'', ''D.'', ''E.''] = [[''A.'', ''B.'', ''C.'', ''D.''], [''E.'']]"
proof -
  let ?raw = "[''A.'', ''B.'', ''C.'', ''D.'', ''E.'']"
  have n: "nonempty_stripped ?raw = ?raw"
    by (simp add: nonempty_stripped_def strip_def isspace_def)
  have g: "page_groups ?raw = [[''A.'', ''B.'', ''C.'', ''D.''], [''E.'']]"
    by (simp add: page_groups_def should_new_page_def)
  have t: "split_story_into_pages (\<lambda>t. Inr ?raw) ''A. B. C. D. E.'' 3 =
           Inr (map join_space (page_groups (nonempty_stripped ?raw))) \<and>
         concat (page_groups (nonempty_stripped ?raw)) = nonempty_stripped ?raw \<and>
         (\<forall>g\<in>set (page_groups (nonempty_stripped ?raw)). 1 \<le> length g \<and> length g \<le> 4) \<and>
         (\<forall>g\<in>set (butlast (page_groups (nonempty_stripped ?raw))).
            should_new_page g (sum_list (map length g)) (last g) \<and> 2 \<le> length g)"
    by (rule page_size_invariant [of "\<lambda>t. Inr ?raw" "''A. B. C. D. E.''" ?raw 3]) simp
  then have "split_story_into_pages (\<lambda>t. Inr ?raw) ''A. B. C. D. E.'' 3 =
           Inr (map join_space (page_groups (nonempty_stripped ?raw)))"
    by (rule conjunct1)
  then show ?thesis
    unfolding n g by simp
qed

section \<open>Coverage: every sentence in exactly one chunk or page\<close>

lemma split_ws_Nil [simp]: "split_ws [] = []"
  by (simp add: split_ws.simps)

lemma split_ws_space: "isspace c \<Longrightarrow> split_ws (c # s) = split_ws s"
  by (simp add: split_ws.simps [of "c # s"] split_ws.simps [of s])

lemma split_ws_nonspace:
  "\<not> isspace c \<Longrightarrow>
   split_ws (c # s) = (c # takeWhile (\<lambda>x. \<not> isspace x) s) # split_ws (dropWhile (\<lambda>x. \<not> isspace x) s)"
  by (simp add: split_ws.simps [of "c # s"])

lemma split_ws_blank: "\<forall>c\<in>set s. isspace c \<Longrightarrow> split_ws s = []"
  by (induction s) (simp_all add: split_ws_space)

lemma split_ws_append_space:
  "isspace c \<Longrightarrow> split_ws (a @ c # b) = split_ws a @ split_ws b"
proof (induction a rule: length_induct)
  case (1 a)
  show ?case
  proof (cases a)
    case Nil
    then show ?thesis using 1(2) by (simp add: split_ws_space)
  next
    case (Cons x xs)
    show ?thesis
    proof (cases "isspace x")
      case True
      have "split_ws (xs @ c # b) = split_ws xs @ split_ws b"
        using 1 Cons by simp
      then show ?thesis
        using True Cons by (simp add: split_ws_space)
    next
      case False
      let ?P = "\<lambda>x. \<not> isspace x"
      show ?thesis
      proof (cases "\<forall>y\<in>set xs. ?P y")
        case all: True
        have t: "takeWhile ?P (xs @ c # b) = xs" "dropWhile ?P (xs @ c # b) = c # b"
          "takeWhile ?P xs = xs" "dropWhile ?P xs = []"
          using all 1(2) by (simp_all add: takeWhile_append2 dropWhile_append2)
        show ?thesis
          using False 1(2) unfolding Cons
          by (simp add: split_ws_nonspace t split_ws_space)
      next
        case notall: False
        then obtain y where y: "y \<in> set xs" "\<not> ?P y" by blast
        have t: "takeWhile ?P (xs @ c # b) = takeWhile ?P xs"
          "dropWhile ?P (xs @ c # b) = dropWhile ?P xs @ c # b"
          using y by (simp_all add: takeWhile_append1 dropWhile_append1)
        have "length (dropWhile ?P xs) < length a"
          using Cons length_dropWhile_le [of ?P xs] by simp
        then have ih: "split_ws (dropWhile ?P xs @ c # b) = split_ws (dropWhile ?P xs) @ split_ws b"
          using 1 by simp
        show ?thesis
          using False unfolding Cons
          by (simp add: split_ws_nonspace t ih)
      qed
    qed
  qed
qed

lemma split_ws_trailing:
  "\<forall>c\<in>set w. isspace c \<Longrightarrow> split_ws (u @ w) = split_ws u"
proof (cases w)
  case Nil
  then show ?thesis by simp
next
  case (Cons c w')
  assume "\<forall>c\<in>set w. isspace c"
  then have "isspace c" "\<forall>c\<in>set w'. isspace c" using Cons by simp_all
  then show ?thesis
    unfolding Cons by (simp add: split_ws_append_space split_ws_blank)
qed

lemma split_ws_leading: "split_ws (dropWhile isspace s) = split_ws s"
  by (induction s) (simp_all add: split_ws_space)

lemma split_ws_strip: "split_ws (strip s) = split_ws s"
proof -
  let ?t = "dropWhile isspace s"
  have "rev ?t = takeWhile isspace (rev ?t) @ dropWhile isspace (rev ?t)"
    by simp
  then have "?t = rev (dropWhile isspace (rev ?t)) @ rev (takeWhile isspace (rev ?t))"
    by (metis rev_append rev_rev_ident)
  moreover have "\<forall>c\<in>set (rev (takeWhile isspace (rev ?t))). isspace c"
    by (auto dest: set_takeWhileD)
  ultimately have "split_ws ?t = split_ws (rev (dropWhile isspace (rev ?t)))"
    by (metis split_ws_trailing)
  then show ?thesis
    by (simp add: strip_def split_ws_leading)
qed

lemma space_isspace [simp]: "isspace CHR '' ''"
  by (simp add: isspace_def)

lemma split_ws_join: "split_ws (join_space g) = concat (map split_ws g)"
  by (induction g rule: join_space.induct) (simp_all add: split_ws_append_space)

lemma split_ws_nonempty_stripped:
  "concat (map split_ws (nonempty_stripped ss)) = concat (map split_ws ss)"
proof (induction ss)
  case Nil
  show ?case by (simp add: nonempty_stripped_def)
next
  case (Cons s ss)
  have "strip s = [] \<Longrightarrow> split_ws s = []"
    by (simp add: strip_eq_Nil split_ws_blank)
  then show ?case
    using Cons by (auto simp: nonempty_stripped_def split_ws_strip)
qed

lemma segment_loop_words:
  "concat (map split_ws (fst (segment_loop m ss (chunks, cur)))) @
     split_ws (snd (segment_loop m ss (chunks, cur)))
   = concat (map split_ws chunks) @ split_ws cur @ concat (map split_ws ss)"
proof (induction ss arbitrary: chunks cur)
  case Nil
  show ?case by simp
next
  case (Cons s ss)
  show ?case
  proof (cases "int (length (cur @ s)) > m \<and> cur \<noteq> []")
    case True
    have e: "segment_loop m (s # ss) (chunks, cur) = segment_loop m ss (chunks @ [strip cur], s)"
      using True by simp
    show ?thesis
      unfolding e Cons.IH by (simp add: split_ws_strip)
  next
    case False
    let ?c = "if cur \<noteq> [] then cur @ '' '' @ s else s"
    have e: "segment_loop m (s # ss) (chunks, cur) = segment_loop m ss (chunks, ?c)"
      using False by auto
    have w: "split_ws ?c = split_ws cur @ split_ws s"
      by (simp add: split_ws_append_space)
    show ?thesis
      unfolding e Cons.IH w by simp
  qed
qed

lemma segment_sentences_words:
  "concat (map split_ws (segment_sentences m ss)) = concat (map split_ws ss)"
proof -
  let ?L = "segment_loop m ss ([], [])"
  have b: "strip (snd ?L) = [] \<Longrightarrow> split_ws (snd ?L) = []"
    by (simp add: strip_eq_Nil split_ws_blank)
  have "concat (map split_ws (segment_sentences m ss)) =
      concat (map split_ws (fst ?L)) @ split_ws (snd ?L)"
    using b by (simp add: segment_sentences_alt split_ws_strip)
  then show ?thesis
    by (simp add: segment_loop_words)
qed

lemma join_space_snoc: "g \<noteq> [] \<Longrightarrow> join_space (g @ [s]) = join_space g @ '' '' @ s"
  by (induction g rule: join_space.induct) simp_all

lemma join_space_eq_Nil: "\<forall>s\<in>set g. s \<noteq> [] \<Longrightarrow> join_space g = [] \<longleftrightarrow> g = []"
  by (induction g rule: join_space.induct) simp_all

lemma segment_loop_groups:
  assumes "\<forall>s\<in>set ss. s \<noteq> []" and "\<forall>s\<in>set g. s \<noteq> []" and "[] \<notin> set gs"
  shows "\<exists>gs' g'. concat gs' @ g' = concat gs @ g @ ss \<and> [] \<notin> set gs' \<and> (\<forall>s\<in>set g'. s \<noteq> []) \<and>
           segment_loop m ss (map (\<lambda>g. strip (join_space g)) gs, join_space g) =
             (map (\<lambda>g. strip (join_space g)) gs', join_space g')"
  using assms
proof (induction ss arbitrary: gs g)
  case Nil
  then show ?case by auto
next
  case (Cons s ss)
  have s: "s \<noteq> []" and ss: "\<forall>s\<in>set ss. s \<noteq> []"
    using Cons.prems(1) by simp_all
  show ?case
  proof (cases "int (length (join_space g @ s)) > m \<and> join_space g \<noteq> []")
    case True
    then have g: "g \<noteq> []" by auto
    have e: "segment_loop m (s # ss) (map (\<lambda>g. strip (join_space g)) gs, join_space g) =
        segment_loop m ss (map (\<lambda>g. strip (join_space g)) (gs @ [g]), join_space [s])"
      using True by simp
    have "\<forall>x\<in>set [s]. x \<noteq> []" using s by simp
    moreover have "[] \<notin> set (gs @ [g])" using Cons.prems(3) g by simp
    ultimately obtain gs' g' where
      "concat gs' @ g' = concat (gs @ [g]) @ [s] @ ss \<and> [] \<notin> set gs' \<and> (\<forall>s\<in>set g'. s \<noteq> []) \<and>
       segment_loop m ss (map (\<lambda>g. strip (join_space g)) (gs @ [g]), join_space [s]) =
         (map (\<lambda>g. strip (join_space g)) gs', join_space g')"
      using Cons.IH [OF ss] by blast
    then show ?thesis
      unfolding e by (intro exI [of _ gs'] exI [of _ g']) simp
  next
    case False
    have j: "(if join_space g \<noteq> [] then join_space g @ '' '' @ s else s) = join_space (g @ [s])"
      using Cons.prems(2) by (auto simp: join_space_snoc join_space_eq_Nil)
    have e: "segment_loop m (s # ss) (map (\<lambda>g. strip (join_space g)) gs, join_space g) =
        segment_loop m ss (map (\<lambda>g. strip (join_space g)) gs, join_space (g @ [s]))"
      using False j by auto
    have "\<forall>x\<in>set (g @ [s]). x \<noteq> []" using s Cons.prems(2) by simp
    then obtain gs' g' where
      "concat gs' @ g' = concat gs @ (g @ [s]) @ ss \<and> [] \<notin> set gs' \<and> (\<forall>s\<in>set g'. s \<noteq> []) \<and>
       segment_loop m ss (map (\<lambda>g. strip (join_space g)) gs, join_space (g @ [s])) =
         (map (\<lambda>g. strip (join_space g)) gs', join_space g')"
      using Cons.IH [OF ss _ Cons.prems(3)] by blast
    then show ?thesis
      unfolding e by (intro exI [of _ gs'] exI [of _ g']) simp
  qed
qed

lemma segment_sentences_groups:
  assumes "\<forall>s\<in>set ss. strip s \<noteq> []"
  shows "\<exists>groups. concat groups = ss \<and> [] \<notin> set groups \<and>
           segment_sentences m ss = map (\<lambda>g. strip (join_space g)) groups"
proof -
  have ne: "\<forall>s\<in>set ss. s \<noteq> []" using assms by auto
  obtain gs g where c: "concat gs @ g = ss" and n: "[] \<notin> set gs" and gne: "\<forall>s\<in>set g. s \<noteq> []"
    and l: "segment_loop m ss ([], []) = (map (\<lambda>g. strip (join_space g)) gs, join_space g)"
    using segment_loop_groups [OF ne, of "[]" "[]" m] by auto
  have inv: "join_space g = [] \<or> strip (join_space g) \<noteq> []"
    using segment_loop_invariant [OF assms, of "[]" "[]" m] by (simp add: l)
  show ?thesis
  proof (cases "g = []")
    case True
    then have "segment_sentences m ss = map (\<lambda>g. strip (join_space g)) gs"
      by (simp add: segment_sentences_def l)
    then show ?thesis using c n True by auto
  next
    case False
    then have "strip (join_space g) \<noteq> []"
      using inv gne by (simp add: join_space_eq_Nil)
    then have "segment_sentences m ss = map (\<lambda>g. strip (join_space g)) (gs @ [g])"
      by (simp add: segment_sentences_def l)
    moreover have "concat (gs @ [g]) = ss" "[] \<notin> set (gs @ [g])"
      using c n False by auto
    ultimately show ?thesis by blast
  qed
qed

lemma concat_map_groups:
  "concat (map (\<lambda>g. concat (map f g)) gs) = concat (map f (concat gs))"
  by (induction gs) simp_all

lemma page_groups_nonempty: "[] \<notin> set (page_groups ss)"
proof
  assume "[] \<in> set (page_groups ss)"
  then have "1 \<le> length ([] :: string list)"
    using page_groups_props [of ss] by blast
  then show False by simp
qed

text \<open>
  C2. Audio chunks: the words of the chunks, in order, are the words of the sentences, in
  order; and when no sentence is empty or white space only, the chunks are the stripped
  joins of consecutive non-empty groups that partition the sentence list, so that every
  sentence lies whole in exactly one chunk. Story pages: the pages are the joins of the
  consecutive non-empty groups \<open>page_groups\<close> that partition the stripped non-empty
  sentences, and the words of the pages are the words of the tokenizer's sentences.
\<close>

theorem sentences_covered_unsplit:
  assumes "sent_tokenize text = Inr sentences"
    and "sent_tokenize (clean_text story_text) = Inr raw"
  shows "segment_text_for_audio sent_tokenize text max_chunk_size =
           Inr (segment_sentences max_chunk_size sentences) \<and>
         concat (map split_ws (segment_sentences max_chunk_size sentences)) =
           concat (map split_ws sentences) \<and>
         ((\<forall>s\<in>set sentences. strip s \<noteq> []) \<longrightarrow>
            (\<exists>groups. concat groups = sentences \<and> [] \<notin> set groups \<and>
               segment_sentences max_chunk_size sentences =
                 map (\<lambda>g. strip (join_space g)) groups)) \<and>
         split_story_into_pages sent_tokenize story_text sentences_per_page =
           Inr (map join_space (page_groups (nonempty_stripped raw))) \<and>
         concat (page_groups (nonempty_stripped raw)) = nonempty_stripped raw \<and>
         [] \<notin> set (page_groups (nonempty_stripped raw)) \<and>
         concat (map split_ws (map join_space (page_groups (nonempty_stripped raw)))) =
           concat (map split_ws raw)"
proof -
  have a: "segment_text_for_audio sent_tokenize text max_chunk_size =
           Inr (segment_sentences max_chunk_size sentences)"
    using assms(1) by (simp add: segment_text_for_audio_def)
  have p: "split_story_into_pages sent_tokenize story_text sentences_per_page =
           Inr (map join_space (page_groups (nonempty_stripped raw)))"
    using assms(2) by (simp add: split_story_into_pages_def paginate_sentences_groups)
  have c: "concat (page_groups (nonempty_stripped raw)) = nonempty_stripped raw"
    using page_groups_props [of "nonempty_stripped raw"] by blast
  have "concat (map split_ws (map join_space (page_groups (nonempty_stripped raw)))) =
      concat (map (\<lambda>g. concat (map split_ws g)) (page_groups (nonempty_stripped raw)))"
    by (simp add: split_ws_join o_def)
  also have "\<dots> = concat (map split_ws (concat (page_groups (nonempty_stripped raw))))"
    by (rule concat_map_groups)
  also have "\<dots> = concat (map split_ws raw)"
    unfolding c by (rule split_ws_nonempty_stripped)
  finally have w: "concat (map split_ws (map join_space (page_groups (nonempty_stripped raw)))) =
      concat (map split_ws raw)" .
  show ?thesis
    using a p c w segment_sentences_words [of max_chunk_size sentences]
      segment_sentences_groups [of sentences max_chunk_size]
      page_groups_nonempty [of "nonempty_stripped raw"]
    by blast
qed

theorem sentences_covered_unsplit_witness:
  "segment_text_for_audio (\<lambda>t. Inr [''Hi.'', ''Yo.'', ''Bye now.'']) ''Hi. Yo. Bye now.'' 7 =
     Inr [''Hi. Yo.'', ''Bye now.'']
   \<and> concat (map split_ws [''Hi. Yo.'', ''Bye now.'']) =
       concat (map split_ws [''Hi.'', ''Yo.'', ''Bye now.''])
   \<and> split_story_into_pages (\<lambda>t. Inr [''Hi.'', ''Yo.'', ''Bye now.'']) ''Hi. Yo. Bye now.'' 3 =
     Inr [''Hi. Yo. Bye now.'']"
proof -
  let ?raw = "[''Hi.'', ''Yo.'', ''Bye now.'']"
  have t: "segment_text_for_audio (\<lambda>t. Inr ?raw) ''Hi. Yo. Bye now.'' 7 =
           Inr (segment_sentences 7 ?raw) \<and>
         concat (map split_ws (segment_sentences 7 ?raw)) = concat (map split_ws ?raw) \<and>
         ((\<forall>s\<in>set ?raw. strip s \<noteq> []) \<longrightarrow>
            (\<exists>groups. concat groups = ?raw \<and> [] \<notin> set groups \<and>
               segment_sentences 7 ?raw = map (\<lambda>g. strip (join_space g)) groups)) \<and>
         split_story_into_pages (\<lambda>t. Inr ?raw) ''Hi. Yo. Bye now.'' 3 =
           Inr (map join_space (page_groups (nonempty_stripped ?raw))) \<and>
         concat (page_groups (nonempty_stripped ?raw)) = nonempty_stripped ?raw \<and>
         [] \<notin> set (page_groups (nonempty_stripped ?raw)) \<and>
         concat (map split_ws (map join_space (page_groups (nonempty_stripped ?raw)))) =
           concat (map split_ws ?raw)"
    by (rule sentences_covered_unsplit
          [of "\<lambda>t. Inr ?raw" "''Hi. Yo. Bye now.''" ?raw "''Hi. Yo. Bye now.''" ?raw 7 3])
       simp_all
  have s: "segment_sentences 7 ?raw = [''Hi. Yo.'', ''Bye now.'']"
    by (simp add: segment_sentences_def strip_def isspace_def)
  have n: "nonempty_stripped ?raw = ?raw"
    by (simp add: nonempty_stripped_def strip_def isspace_def)
  have g: "page_groups ?raw = [?raw]"
    by (simp add: page_groups_def should_new_page_def)
  from t have "segment_text_for_audio (\<lambda>t. Inr ?raw) ''Hi. Yo. Bye now.'' 7 =
           Inr (segment_sentences 7 ?raw)"
    and "concat (map split_ws (segment_sentences 7 ?raw)) = concat (map split_ws ?raw)"
    and "split_story_into_pages (\<lambda>t. Inr ?raw) ''Hi. Yo. Bye now.'' 3 =
           Inr (map join_space (page_groups (nonempty_stripped ?raw)))"
    by blast+
  then show ?thesis
    unfolding s n g by simp
qed

section \<open>Idempotence of normalization\<close>

lemma punct_not_space: "ispunct c \<Longrightarrow> \<not> isspace c"
  by (auto simp: ispunct_def isspace_def)

lemma upper_not_space: "isupperAZ c \<Longrightarrow> \<not> isspace c"
  by (auto simp: isupperAZ_def isspace_def)

lemma upper_not_punct: "isupperAZ c \<Longrightarrow> \<not> ispunct c"
  by (auto simp: isupperAZ_def ispunct_def)

lemma space_kept: "iskept CHR '' ''"
  by (simp add: iskept_def isspace_def)

lemma successively_dropWhile: "successively P xs \<Longrightarrow> successively P (dropWhile Q xs)"
  by (induction xs) (auto simp: successively_Cons)

lemma successively_tl: "successively P (x # xs) \<Longrightarrow> successively P xs"
  by (auto simp: successively_Cons)

lemma successively_dropWhile_tl:
  "successively P xs \<Longrightarrow> dropWhile Q xs = y # ys \<Longrightarrow> successively P ys"
  using successively_dropWhile [of P xs Q] by (auto simp: successively_Cons)

lemma successively_strip: "successively P s \<Longrightarrow> successively P (strip s)"
proof -
  assume "successively P s"
  then have "successively P (dropWhile isspace s)"
    by (rule successively_dropWhile)
  then have "successively (\<lambda>x y. P y x) (rev (dropWhile isspace s))"
    by simp
  then have "successively (\<lambda>x y. P y x) (dropWhile isspace (rev (dropWhile isspace s)))"
    by (rule successively_dropWhile)
  then show ?thesis
    by (simp add: strip_def)
qed

lemma set_strip: "c \<in> set (strip s) \<Longrightarrow> c \<in> set s"
proof -
  assume "c \<in> set (strip s)"
  then have "c \<in> set (dropWhile isspace (rev (dropWhile isspace s)))"
    by (simp add: strip_def)
  then have "c \<in> set (rev (dropWhile isspace s))"
    by (rule set_dropWhileD)
  then have "c \<in> set (dropWhile isspace s)"
    by simp
  then show "c \<in> set s"
    by (rule set_dropWhileD)
qed

text \<open>The first substitution.\<close>

lemma sub_whitespace_set: "set (sub_whitespace s) \<subseteq> insert CHR '' '' (set s)"
proof (induction s rule: sub_whitespace.induct)
  case 1
  show ?case by simp
next
  case (2 c cs)
  then show ?case
    using set_dropWhileD [of _ isspace cs] by (auto split: if_splits)
qed

lemma sub_whitespace_plain: "plain_spaces (sub_whitespace s)"
  unfolding plain_spaces_def
  by (induction s rule: sub_whitespace.induct) auto

lemma sub_whitespace_hd:
  "s \<noteq> [] \<Longrightarrow> \<not> isspace (hd s) \<Longrightarrow> sub_whitespace s \<noteq> [] \<and> hd (sub_whitespace s) = hd s"
  by (cases s) auto

lemma dropWhile_hd: "dropWhile Q xs \<noteq> [] \<Longrightarrow> \<not> Q (hd (dropWhile Q xs))"
  by (simp add: hd_dropWhile)

lemma sub_whitespace_no_double: "successively no_double_space (sub_whitespace s)"
proof (induction s rule: sub_whitespace.induct)
  case 1
  show ?case by simp
next
  case (2 c cs)
  show ?case
  proof (cases "isspace c")
    case True
    let ?d = "dropWhile isspace cs"
    have "sub_whitespace ?d = [] \<or> \<not> isspace (hd (sub_whitespace ?d))"
    proof (cases "?d = []")
      case True
      show ?thesis unfolding True by simp
    next
      case False
      then have "\<not> isspace (hd ?d)" by (rule dropWhile_hd)
      then show ?thesis using sub_whitespace_hd [OF False] by simp
    qed
    then show ?thesis
      using True 2(1) [OF True]
      by (auto simp: successively_Cons no_double_space_def)
  next
    case False
    then show ?thesis
      using 2(2) [OF False]
      by (auto simp: successively_Cons no_double_space_def)
  qed
qed

text \<open>The second substitution.\<close>

lemma sbp_end:
  "isspace c \<Longrightarrow> dropWhile isspace cs = [] \<Longrightarrow>
     sub_space_before_punct (c # cs) = c # sub_space_before_punct cs"
  by (simp del: dropWhile_eq_Nil_conv)

lemma sbp_match:
  "isspace c \<Longrightarrow> dropWhile isspace cs = p # rest \<Longrightarrow> ispunct p \<Longrightarrow>
     sub_space_before_punct (c # cs) = p # sub_space_before_punct rest"
  by simp

lemma sbp_other:
  "isspace c \<Longrightarrow> dropWhile isspace cs = p # rest \<Longrightarrow> \<not> ispunct p \<Longrightarrow>
     sub_space_before_punct (c # cs) = c # sub_space_before_punct cs"
  by simp

lemma sbp_keep:
  "\<not> isspace c \<Longrightarrow> sub_space_before_punct (c # cs) = c # sub_space_before_punct cs"
  by simp

lemma sub_space_before_punct_set:
  "x \<in> set (sub_space_before_punct s) \<Longrightarrow> x \<in> set s"
proof (induction s rule: sub_space_before_punct.induct)
  case 1
  then show ?case by simp
next
  case (2 c cs)
  show ?case
  proof (cases "isspace c")
    case sp: True
    show ?thesis
    proof (cases "dropWhile isspace cs")
      case Nil
      show ?thesis
        using 2(1) [OF sp Nil] 2(5) unfolding sbp_end [OF sp Nil] by auto
    next
      case (Cons p rest)
      have "set (dropWhile isspace cs) \<subseteq> set cs"
        using set_dropWhileD [of _ isspace cs] by blast
      then have r: "set rest \<subseteq> set cs" and p: "p \<in> set cs"
        unfolding Cons by simp_all
      show ?thesis
      proof (cases "ispunct p")
        case True
        show ?thesis
          using 2(2) [OF sp Cons True] 2(5) r p unfolding sbp_match [OF sp Cons True] by auto
      next
        case False
        show ?thesis
          using 2(3) [OF sp Cons False] 2(5) unfolding sbp_other [OF sp Cons False] by auto
      qed
    qed
  next
    case False
    show ?thesis
      using 2(4) [OF False] 2(5) unfolding sbp_keep [OF False] by auto
  qed
qed

lemma sub_space_before_punct_hd:
  "s \<noteq> [] \<Longrightarrow> \<not> isspace (hd s) \<Longrightarrow>
     sub_space_before_punct s \<noteq> [] \<and> hd (sub_space_before_punct s) = hd s"
  by (cases s) auto

lemma no_double_dropWhile:
  "successively no_double_space (c # cs) \<Longrightarrow> isspace c \<Longrightarrow> dropWhile isspace cs = cs"
  by (cases cs) (auto simp: no_double_space_def)

lemma sbp_pairs:
  assumes "successively no_double_space s"
  shows "successively no_double_space (sub_space_before_punct s) \<and>
         successively no_space_before_punct (sub_space_before_punct s)"
  using assms
proof (induction s rule: sub_space_before_punct.induct)
  case 1
  then show ?case by simp
next
  case (2 c cs)
  have tl: "successively no_double_space cs"
    using 2(5) by (rule successively_tl)
  show ?case
  proof (cases "isspace c")
    case sp: True
    have d: "dropWhile isspace cs = cs"
      using 2(5) sp by (rule no_double_dropWhile)
    show ?thesis
    proof (cases cs)
      case Nil
      have dn: "dropWhile isspace cs = []" unfolding Nil by simp
      show ?thesis
        unfolding sbp_end [OF sp dn] unfolding Nil by simp
    next
      case (Cons p rest)
      have dc: "dropWhile isspace cs = p # rest" using d Cons by simp
      have np: "\<not> isspace p" using 2(5) sp Cons by (simp add: no_double_space_def)
      show ?thesis
      proof (cases "ispunct p")
        case True
        have "successively no_double_space rest"
          using tl unfolding Cons by (rule successively_tl)
        then have "successively no_double_space (sub_space_before_punct rest) \<and>
            successively no_space_before_punct (sub_space_before_punct rest)"
          by (rule 2(2) [OF sp dc True])
        then show ?thesis
          unfolding sbp_match [OF sp dc True] using np
          by (simp add: successively_Cons no_double_space_def no_space_before_punct_def)
      next
        case False
        have "successively no_double_space (sub_space_before_punct cs) \<and>
            successively no_space_before_punct (sub_space_before_punct cs)"
          using tl by (rule 2(3) [OF sp dc False])
        moreover have "hd (sub_space_before_punct cs) = p" "sub_space_before_punct cs \<noteq> []"
          using sub_space_before_punct_hd [of cs] np Cons by simp_all
        ultimately show ?thesis
          unfolding sbp_other [OF sp dc False] using np False
          by (simp add: successively_Cons no_double_space_def no_space_before_punct_def)
      qed
    qed
  next
    case False
    have "successively no_double_space (sub_space_before_punct cs) \<and>
        successively no_space_before_punct (sub_space_before_punct cs)"
      using tl by (rule 2(4) [OF False])
    then show ?thesis
      unfolding sbp_keep [OF False] using False
      by (simp add: successively_Cons no_double_space_def no_space_before_punct_def)
  qed
qed

text \<open>The third substitution.\<close>

lemma spa_end:
  "ispunct c \<Longrightarrow> dropWhile isspace cs = [] \<Longrightarrow>
     sub_space_after_punct (c # cs) = c # sub_space_after_punct cs"
  by (simp del: dropWhile_eq_Nil_conv)

lemma spa_match:
  "ispunct c \<Longrightarrow> dropWhile isspace cs = u # rest \<Longrightarrow> isupperAZ u \<Longrightarrow>
     sub_space_after_punct (c # cs) = c # CHR '' '' # u # sub_space_after_punct rest"
  by simp

lemma spa_other:
  "ispunct c \<Longrightarrow> dropWhile isspace cs = u # rest \<Longrightarrow> \<not> isupperAZ u \<Longrightarrow>
     sub_space_after_punct (c # cs) = c # sub_space_after_punct cs"
  by simp

lemma spa_keep:
  "\<not> ispunct c \<Longrightarrow> sub_space_after_punct (c # cs) = c # sub_space_after_punct cs"
  by simp

lemma sub_space_after_punct_set:
  "x \<in> set (sub_space_after_punct s) \<Longrightarrow> x = CHR '' '' \<or> x \<in> set s"
proof (induction s rule: sub_space_after_punct.induct)
  case 1
  then show ?case by simp
next
  case (2 c cs)
  show ?case
  proof (cases "ispunct c")
    case pu: True
    show ?thesis
    proof (cases "dropWhile isspace cs")
      case Nil
      show ?thesis
        using 2(1) [OF pu Nil] 2(5) unfolding spa_end [OF pu Nil] by auto
    next
      case (Cons u rest)
      have "set (dropWhile isspace cs) \<subseteq> set cs"
        using set_dropWhileD [of _ isspace cs] by blast
      then have r: "set rest \<subseteq> set cs" and u: "u \<in> set cs"
        unfolding Cons by simp_all
      show ?thesis
      proof (cases "isupperAZ u")
        case True
        show ?thesis
          using 2(2) [OF pu Cons True] 2(5) r u unfolding spa_match [OF pu Cons True] by auto
      next
        case False
        show ?thesis
          using 2(3) [OF pu Cons False] 2(5) unfolding spa_other [OF pu Cons False] by auto
      qed
    qed
  next
    case False
    show ?thesis
      using 2(4) [OF False] 2(5) unfolding spa_keep [OF False] by auto
  qed
qed

lemma sub_space_after_punct_hd:
  "s \<noteq> [] \<Longrightarrow> sub_space_after_punct s \<noteq> [] \<and> hd (sub_space_after_punct s) = hd s"
  by (cases s) (auto split: list.splits)

lemma successively_hd:
  "successively P (c # cs) \<Longrightarrow> cs \<noteq> [] \<Longrightarrow> P c (hd cs)"
  by (cases cs) auto

lemma spa_pairs:
  assumes "successively no_double_space s" and "successively no_space_before_punct s"
  shows "successively no_double_space (sub_space_after_punct s) \<and>
         successively no_space_before_punct (sub_space_after_punct s) \<and>
         successively no_punct_before_upper (sub_space_after_punct s)"
  using assms
proof (induction s rule: sub_space_after_punct.induct)
  case 1
  then show ?case by simp
next
  case (2 c cs)
  let ?Q = "\<lambda>t. successively no_double_space (sub_space_after_punct t) \<and>
         successively no_space_before_punct (sub_space_after_punct t) \<and>
         successively no_punct_before_upper (sub_space_after_punct t)"
  have tl: "successively no_double_space cs" "successively no_space_before_punct cs"
    using 2(5,6) by (auto dest: successively_tl)
  have hd: "cs \<noteq> [] \<Longrightarrow> no_double_space c (hd cs) \<and> no_space_before_punct c (hd cs)"
    using 2(5,6) by (auto dest: successively_hd)
  have keep: "?Q (c # cs)"
    if e: "sub_space_after_punct (c # cs) = c # sub_space_after_punct cs"
      and q: "?Q cs" and n: "cs \<noteq> [] \<Longrightarrow> no_punct_before_upper c (hd cs)"
  proof (cases "cs = []")
    case True
    then show ?thesis unfolding e by simp
  next
    case False
    then show ?thesis
      unfolding e using q n hd sub_space_after_punct_hd [OF False]
      by (simp add: successively_Cons)
  qed
  show ?case
  proof (cases "ispunct c")
    case pu: True
    have nsc: "\<not> isspace c" using pu by (rule punct_not_space)
    show ?thesis
    proof (cases "dropWhile isspace cs")
      case Nil
      have q: "?Q cs" using tl by (rule 2(1) [OF pu Nil])
      have "cs \<noteq> [] \<Longrightarrow> isspace (hd cs)"
        using Nil by (cases cs) (auto split: if_splits)
      then have "cs \<noteq> [] \<Longrightarrow> no_punct_before_upper c (hd cs)"
        using upper_not_space by (auto simp: no_punct_before_upper_def)
      then show ?thesis
        using spa_end [OF pu Nil] q by (rule keep [rotated 2])
    next
      case (Cons u rest)
      show ?thesis
      proof (cases "isupperAZ u")
        case True
        have r: "successively no_double_space rest" "successively no_space_before_punct rest"
          using tl Cons by (auto dest: successively_dropWhile_tl)
        have q: "?Q rest" using r by (rule 2(2) [OF pu Cons True])
        have nsu: "\<not> isspace u" "\<not> ispunct u"
          using True upper_not_space upper_not_punct by auto
        have nps: "\<not> ispunct CHR '' ''" "\<not> isupperAZ CHR '' ''"
          using punct_not_space upper_not_space space_isspace by blast+
        have first: "no_double_space c CHR '' '' \<and> no_space_before_punct c CHR '' '' \<and>
            no_punct_before_upper c CHR '' ''"
          using nsc nps
          by (simp add: no_double_space_def no_space_before_punct_def no_punct_before_upper_def)
        have second: "no_double_space CHR '' '' u \<and> no_space_before_punct CHR '' '' u \<and>
            no_punct_before_upper CHR '' '' u"
          using nsu nps
          by (simp add: no_double_space_def no_space_before_punct_def no_punct_before_upper_def)
        have third: "no_double_space u x \<and> no_space_before_punct u x \<and> no_punct_before_upper u x" for x
          using nsu
          by (simp add: no_double_space_def no_space_before_punct_def no_punct_before_upper_def)
        show ?thesis
          unfolding spa_match [OF pu Cons True] using q first second third
          by (simp add: successively_Cons)
      next
        case False
        have q: "?Q cs" using tl by (rule 2(3) [OF pu Cons False])
        have "\<not> isupperAZ (hd cs)" if "cs \<noteq> []"
        proof
          assume up: "isupperAZ (hd cs)"
          then have "\<not> isspace (hd cs)" by (rule upper_not_space)
          then have "dropWhile isspace cs = cs" using that by (cases cs) auto
          then have "hd cs = u" using Cons by (metis list.sel(1))
          then show False using up False by simp
        qed
        then have "cs \<noteq> [] \<Longrightarrow> no_punct_before_upper c (hd cs)"
          by (simp add: no_punct_before_upper_def)
        then show ?thesis
          using spa_other [OF pu Cons False] q by (rule keep [rotated 2])
      qed
    qed
  next
    case False
    have q: "?Q cs" using tl by (rule 2(4) [OF False])
    have "cs \<noteq> [] \<Longrightarrow> no_punct_before_upper c (hd cs)"
      using False by (simp add: no_punct_before_upper_def)
    then show ?thesis
      using spa_keep [OF False] q by (rule keep [rotated 2])
  qed
qed

text \<open>Texts without such pairs are fixed points of the three substitutions.\<close>

lemma plain_spaces_tl: "plain_spaces (c # cs) \<Longrightarrow> plain_spaces cs"
  by (simp add: plain_spaces_def)

lemma sub_whitespace_fixed:
  "plain_spaces s \<Longrightarrow> successively no_double_space s \<Longrightarrow> sub_whitespace s = s"
proof (induction s rule: sub_whitespace.induct)
  case 1
  show ?case by simp
next
  case (2 c cs)
  have tl: "plain_spaces cs" "successively no_double_space cs"
    using 2(3,4) by (auto dest: plain_spaces_tl successively_tl)
  show ?case
  proof (cases "isspace c")
    case True
    have d: "dropWhile isspace cs = cs"
      using 2(4) True by (rule no_double_dropWhile)
    have c: "c = CHR '' ''"
      using 2(3) True by (simp add: plain_spaces_def)
    have "sub_whitespace (dropWhile isspace cs) = dropWhile isspace cs"
      using tl unfolding d by (rule 2(1) [OF True, unfolded d])
    then show ?thesis
      using True c d by simp
  next
    case False
    have "sub_whitespace cs = cs"
      using tl by (rule 2(2) [OF False])
    then show ?thesis using False by simp
  qed
qed

lemma sub_space_before_punct_fixed:
  "successively no_double_space s \<Longrightarrow> successively no_space_before_punct s \<Longrightarrow>
     sub_space_before_punct s = s"
proof (induction s rule: sub_space_before_punct.induct)
  case 1
  show ?case by simp
next
  case (2 c cs)
  have tl: "successively no_double_space cs" "successively no_space_before_punct cs"
    using 2(5,6) by (auto dest: successively_tl)
  show ?case
  proof (cases "isspace c")
    case sp: True
    have d: "dropWhile isspace cs = cs"
      using 2(5) sp by (rule no_double_dropWhile)
    show ?thesis
    proof (cases cs)
      case Nil
      have dn: "dropWhile isspace cs = []" unfolding Nil by simp
      show ?thesis
        unfolding sbp_end [OF sp dn] unfolding Nil by simp
    next
      case (Cons p rest)
      have dc: "dropWhile isspace cs = p # rest" using d Cons by simp
      have np: "\<not> ispunct p"
        using 2(6) sp Cons by (simp add: no_space_before_punct_def)
      have "sub_space_before_punct cs = cs"
        using tl by (rule 2(3) [OF sp dc np])
      then show ?thesis
        unfolding sbp_other [OF sp dc np] by simp
    qed
  next
    case False
    have "sub_space_before_punct cs = cs"
      using tl by (rule 2(4) [OF False])
    then show ?thesis
      unfolding sbp_keep [OF False] by simp
  qed
qed

lemma sub_space_after_punct_fixed:
  "plain_spaces s \<Longrightarrow> successively no_double_space s \<Longrightarrow>
   successively no_punct_before_upper s \<Longrightarrow> sub_space_after_punct s = s"
proof (induction s rule: sub_space_after_punct.induct)
  case 1
  show ?case by simp
next
  case (2 c cs)
  have tl: "plain_spaces cs" "successively no_double_space cs"
      "successively no_punct_before_upper cs"
    using 2(5,6,7) by (auto dest: plain_spaces_tl successively_tl)
  show ?case
  proof (cases "ispunct c")
    case pu: True
    show ?thesis
    proof (cases "dropWhile isspace cs")
      case Nil
      have "sub_space_after_punct cs = cs"
        using tl by (rule 2(1) [OF pu Nil])
      then show ?thesis
        unfolding spa_end [OF pu Nil] by simp
    next
      case (Cons u rest)
      show ?thesis
      proof (cases "isupperAZ u")
        case True
        have r: "plain_spaces rest" "successively no_double_space rest"
            "successively no_punct_before_upper rest"
        proof -
          have "set (dropWhile isspace cs) \<subseteq> set cs"
            using set_dropWhileD [of _ isspace cs] by blast
          then have "set rest \<subseteq> set cs" unfolding Cons by simp
          then show "plain_spaces rest"
            using tl(1) by (auto simp: plain_spaces_def)
          show "successively no_double_space rest" "successively no_punct_before_upper rest"
            using tl Cons by (auto dest: successively_dropWhile_tl)
        qed
        have fx: "sub_space_after_punct rest = rest"
          using r by (rule 2(2) [OF pu Cons True])
        obtain e es where cs: "cs = e # es"
          using Cons by (cases cs) auto
        have "isspace e"
        proof (rule ccontr)
          assume "\<not> isspace e"
          then have "e = u" using Cons cs by simp
          then show False
            using 2(7) pu True cs by (simp add: no_punct_before_upper_def)
        qed
        then have e: "e = CHR '' ''"
          using tl(1) cs by (simp add: plain_spaces_def)
        have "dropWhile isspace es = es"
          using tl(2) \<open>isspace e\<close> unfolding cs by (rule no_double_dropWhile)
        then have "es = u # rest"
          using Cons cs \<open>isspace e\<close> by simp
        then have bk: "c # CHR '' '' # u # rest = c # cs"
          using cs e by simp
        have "sub_space_after_punct (c # cs) = c # CHR '' '' # u # rest"
          unfolding spa_match [OF pu Cons True] fx ..
        then show ?thesis
          unfolding bk .
      next
        case False
        have "sub_space_after_punct cs = cs"
          using tl by (rule 2(3) [OF pu Cons False])
        then show ?thesis
          unfolding spa_other [OF pu Cons False] by simp
      qed
    qed
  next
    case False
    have "sub_space_after_punct cs = cs"
      using tl by (rule 2(4) [OF False])
    then show ?thesis
      unfolding spa_keep [OF False] by simp
  qed
qed

lemma clean_text_fixed_on_kept:
  assumes "\<forall>c\<in>set x. iskept c"
  shows "clean_text (clean_text x) = clean_text x"
proof -
  let ?a = "sub_whitespace x"
  let ?b = "sub_space_before_punct ?a"
  let ?z = "sub_space_after_punct ?b"
  let ?y = "strip ?z"
  have zset: "c = CHR '' '' \<or> c \<in> set x" if "c \<in> set ?z" for c
  proof -
    from that have "c = CHR '' '' \<or> c \<in> set ?b"
      by (rule sub_space_after_punct_set)
    then have "c = CHR '' '' \<or> c \<in> set ?a"
      using sub_space_before_punct_set by blast
    then show ?thesis
      using sub_whitespace_set [of x] by blast
  qed
  have zkept: "\<forall>c\<in>set ?z. iskept c"
    using zset assms space_kept by blast
  then have f: "sub_special ?z = ?z"
    by (simp add: sub_special_def)
  have y: "clean_text x = ?y"
    by (simp add: clean_text_def f)
  have zplain: "plain_spaces ?z"
    unfolding plain_spaces_def
  proof (intro ballI impI)
    fix c assume c: "c \<in> set ?z" "isspace c"
    show "c = CHR '' ''"
    proof (rule ccontr)
      assume n: "c \<noteq> CHR '' ''"
      then have "c \<in> set ?b" using c(1) sub_space_after_punct_set by blast
      then have "c \<in> set ?a" by (rule sub_space_before_punct_set)
      then show False
        using sub_whitespace_plain [of x] c(2) n by (simp add: plain_spaces_def)
    qed
  qed
  have bp: "successively no_double_space ?b \<and> successively no_space_before_punct ?b"
    using sub_whitespace_no_double by (rule sbp_pairs)
  have zp: "successively no_double_space ?z \<and> successively no_space_before_punct ?z \<and>
      successively no_punct_before_upper ?z"
    using bp by (intro spa_pairs) simp_all
  have yplain: "plain_spaces ?y"
    using zplain set_strip by (auto simp: plain_spaces_def)
  have ykept: "\<forall>c\<in>set ?y. iskept c"
    using zkept set_strip by blast
  have y1: "successively no_double_space ?y" and y2: "successively no_space_before_punct ?y"
    and y3: "successively no_punct_before_upper ?y"
    using zp by (auto intro: successively_strip)
  have s1: "sub_whitespace ?y = ?y"
    using yplain y1 by (rule sub_whitespace_fixed)
  have s2: "sub_space_before_punct ?y = ?y"
    using y1 y2 by (rule sub_space_before_punct_fixed)
  have s3: "sub_space_after_punct ?y = ?y"
    using yplain y1 y3 by (rule sub_space_after_punct_fixed)
  have s4: "sub_special ?y = ?y"
    using ykept by (simp add: sub_special_def)
  have "clean_text ?y = strip ?y"
    unfolding clean_text_def s1 s2 s3 s4 ..
  then show ?thesis
    unfolding y by simp
qed

lemma clean_text_kept: "\<forall>c\<in>set (clean_text x). iskept c"
proof
  fix c assume "c \<in> set (clean_text x)"
  then have "c \<in> set (sub_special (sub_space_after_punct (sub_space_before_punct (sub_whitespace x))))"
    unfolding clean_text_def by (rule set_strip)
  then show "iskept c"
    by (simp add: sub_special_def)
qed

lemma clean_text_stable_after_first:
  "clean_text (clean_text (clean_text x)) = clean_text (clean_text x)"
  using clean_text_kept by (rule clean_text_fixed_on_kept)

text \<open>
  The characters outside the kept class are removed after the spacing repairs, so their
  removal can bring a white space next to a punctuation mark: \<open>clean_text\<close> maps
  \<open>a # .\<close> to \<open>a .\<close>, and that to \<open>a.\<close>.
\<close>

theorem clean_text_not_idempotent:
  "clean_text (clean_text ''a # .'') \<noteq> clean_text ''a # .''"
  by code_simp

text \<open>
  C4, amended. \<open>clean_text\<close> is idempotent on every text made only of characters it
  keeps (word characters, white space and the marks \<open>. , ! ? ; : ( ) ' " -\<close>):
  for such a text \<open>clean_text (clean_text x) = clean_text x\<close>.
\<close>

theorem clean_text_idempotent_on_kept:
  assumes "\<forall>c\<in>set x. iskept c"
  shows "clean_text (clean_text x) = clean_text x"
  using assms by (rule clean_text_fixed_on_kept)

theorem clean_text_idempotent_on_kept_witness:
  "clean_text (clean_text ''Hello ,world.Next  one'') = clean_text ''Hello ,world.Next  one''
   \<and> clean_text ''Hello ,world.Next  one'' = ''Hello,world. Next one''"
proof -
  have h: "\<forall>c\<in>set ''Hello ,world.Next  one''. iskept c"
    by code_simp
  have e: "clean_text ''Hello ,world.Next  one'' = ''Hello,world. Next one''"
    by code_simp
  have t: "clean_text (clean_text ''Hello ,world.Next  one'') = clean_text ''Hello ,world.Next  one''"
    by (rule clean_text_idempotent_on_kept [OF h])
  show ?thesis
    by (intro conjI t e)
qed

end
